theory Spec2Isabelle
  imports Complex_Main "HOL-Library.Log_Nat"
begin

section \<open>Data model of js/minesweeper.js\<close>

text \<open>
  The script keeps one game in the object \<open>data\<close> (the grid of cells, the statistics,
  the \<open>active\<close> flag) and the presentation state of every cell in the CSS classes of
  the table cell (\<open>td\<close>) drawn for it.  Both are modelled, as one record that every
  function takes and returns.

  JavaScript raises a \<open>TypeError\<close> when a property of \<open>null\<close> or \<open>undefined\<close> is
  read; nothing in the script catches it, so the handler that runs is aborted.  Such a
  run is the value \<open>Inl TypeError\<close>.
\<close>

datatype error = TypeError

text \<open>A cell of \<open>data.grid\<close>: the object \<open>{mined: false}\<close>.\<close>

record cell =
  mined :: bool

text \<open>
  The class names of \<open>data.classes\<close>, and the classes \<open>one\<close> ... \<open>eight\<close> of the array
  \<open>classes\<close> in \<open>cellClicked\<close>: \<open>Number n\<close> is the entry \<open>classes[n]\<close>.
\<close>

datatype cssClass = Cheat | Empty | Flagged | Mined | Miss | Sprite | Unknown | Number nat

text \<open>
  A JavaScript number, as far as the script compares one: not-a-number, a finite value
  or an infinity.  \<open>data.stats.mines\<close> holds the number 10 or the string read from
  the input field.
\<close>

datatype jsnum = NaN | Finite rat | PosInfinity | NegInfinity

datatype jsval = JNumber jsnum | JString string

record stats =
  clicks :: int
  cols :: int
  mines :: jsval
  minesPlanted :: int
  rows :: int
  seconds :: int

text \<open>
  \<open>grid\<close> is \<open>data.grid\<close> (\<open>None\<close> is \<open>null\<close>), an array of rows of cells.  \<open>tds\<close> is the
  table \<open>elements.grid\<close>: the rows of \<open>td\<close> elements, each the set of its CSS classes;
  the \<open>td\<close> in row \<open>r\<close> and column \<open>c\<close> carries \<open>data-row = r\<close> and \<open>data-col = c\<close>, as
  \<open>buildGrid\<close> writes them.  \<open>gameresult\<close> is the text of the \<open>h1.gameresult\<close>
  element and \<open>modal\<close> the title and message of the notice last shown.
\<close>

record data =
  active :: bool
  grid :: "cell list list option"
  stats :: stats
  tds :: "cssClass set list list"
  gameresult :: "string option"
  modal :: "(string \<times> string) option"

text \<open>\<open>data.directions\<close>: the pairs \<open>(x, y)\<close>, in the order of the source.\<close>

definition directions :: "(int \<times> int) list" where
  "directions = [(-1, 0), (-1, 1), (0, 1), (1, 1), (1, 0), (1, -1), (0, -1), (-1, -1)]"

section \<open>Reading the grid\<close>

text \<open>
  The expression \<open>data.grid[r][c]\<close>: a \<open>TypeError\<close> when \<open>data.grid\<close> is \<open>null\<close> or has no
  row \<open>r\<close>, \<open>undefined\<close> (here \<open>None\<close>) when the row has no entry \<open>c\<close>.
\<close>

definition gridAt :: "cell list list option \<Rightarrow> int \<Rightarrow> int \<Rightarrow> error + cell option" where
  "gridAt g r c =
     (case g of
        None \<Rightarrow> Inl TypeError
      | Some rws \<Rightarrow>
          if 0 \<le> r \<and> r < int (length rws) then
            (if 0 \<le> c \<and> c < int (length (rws ! nat r))
             then Inr (Some (rws ! nat r ! nat c)) else Inr None)
          else Inl TypeError)"

text \<open>\<open>utility.getCell\<close>; \<open>None\<close> is the \<open>null\<close> it returns for no cell.\<close>

definition getCell :: "data \<Rightarrow> int \<Rightarrow> int \<Rightarrow> error + cell option" where
  "getCell d r c =
     (if r \<ge> 0 \<and> r < rows (stats d) \<and> c \<ge> 0 \<and> c < cols (stats d) then
        (case gridAt (grid d) r c of
           Inl e \<Rightarrow> Inl e
         | Inr None \<Rightarrow> Inr None
         | Inr (Some cellAt) \<Rightarrow> Inr (Some cellAt))
      else Inr None)"

text \<open>
  \<open>utility.countSurroundingMines\<close>: the loop over \<open>data.directions\<close>, with the counter
  \<open>surrounding\<close> as accumulator.
\<close>

fun countFrom :: "data \<Rightarrow> int \<Rightarrow> int \<Rightarrow> (int \<times> int) list \<Rightarrow> nat \<Rightarrow> error + nat" where
  "countFrom d row col [] surrounding = Inr surrounding"
| "countFrom d row col (dir # rest) surrounding =
     (case getCell d (row + snd dir) (col + fst dir) of
        Inl e \<Rightarrow> Inl e
      | Inr None \<Rightarrow> countFrom d row col rest surrounding
      | Inr (Some cellToCheck) \<Rightarrow>
          countFrom d row col rest (if mined cellToCheck then surrounding + 1 else surrounding))"

definition countSurroundingMines :: "data \<Rightarrow> int \<Rightarrow> int \<Rightarrow> error + nat" where
  "countSurroundingMines d row col = countFrom d row col directions 0"

section \<open>The table cells\<close>

text \<open>
  jQuery selections never fail: on a \<open>td\<close> that does not exist \<open>hasClass\<close> is false
  and \<open>addClass\<close>, \<open>removeClass\<close> do nothing.  \<open>hasClass t r c k\<close> is
  \<open>elements.td(r, c).hasClass(k)\<close>, and \<open>changeClasses f r c t\<close> replaces the classes
  \<open>k\<close> of that \<open>td\<close> by \<open>f k\<close>.
\<close>

definition hasClass :: "cssClass set list list \<Rightarrow> int \<Rightarrow> int \<Rightarrow> cssClass \<Rightarrow> bool" where
  "hasClass t r c k =
     (0 \<le> r \<and> r < int (length t) \<and> 0 \<le> c \<and> c < int (length (t ! nat r)) \<and>
      k \<in> t ! nat r ! nat c)"

definition changeClasses ::
  "(cssClass set \<Rightarrow> cssClass set) \<Rightarrow> int \<Rightarrow> int \<Rightarrow> cssClass set list list \<Rightarrow> cssClass set list list" where
  "changeClasses f r c t =
     (if 0 \<le> r \<and> r < int (length t) \<and> 0 \<le> c \<and> c < int (length (t ! nat r))
      then t[nat r := (t ! nat r)[nat c := f (t ! nat r ! nat c)]]
      else t)"

text \<open>The \<open>td\<close> elements of the table in document order, each as its \<open>(data-row, data-col)\<close>.\<close>

definition allTds :: "cssClass set list list \<Rightarrow> (int \<times> int) list" where
  "allTds t = concat (map (\<lambda>r. map (\<lambda>c. (int r, int c)) [0..<length (t ! r)]) [0..<length t])"

text \<open>The selection \<open>$("td.unknown")\<close>.\<close>

definition unknownTds :: "cssClass set list list \<Rightarrow> (int \<times> int) list" where
  "unknownTds t = filter (\<lambda>(r, c). hasClass t r c Unknown) (allTds t)"

section \<open>Sequencing\<close>

text \<open>
  A run that may raise is a value of \<open>error + 'a\<close>; one that may also fail to return
  (\<open>plantAllMines\<close>, and all that calls it or the recursive reveal) is a value of
  \<open>(error + 'a) option\<close>, where \<open>None\<close> is a run that never returns.
\<close>

definition bindE :: "error + 'a \<Rightarrow> ('a \<Rightarrow> error + 'b) \<Rightarrow> error + 'b" where
  "bindE m k = (case m of Inl e \<Rightarrow> Inl e | Inr a \<Rightarrow> k a)"

definition andThen :: "(error + 'a) option \<Rightarrow> ('a \<Rightarrow> (error + 'b) option) \<Rightarrow> (error + 'b) option" where
  "andThen m k = (case m of None \<Rightarrow> None | Some (Inl e) \<Rightarrow> Some (Inl e) | Some (Inr a) \<Rightarrow> k a)"

text \<open>A \<open>for\<close> loop over an array whose body may raise or not return.\<close>

fun forEach :: "'a list \<Rightarrow> ('a \<Rightarrow> 's \<Rightarrow> (error + 's) option) \<Rightarrow> 's \<Rightarrow> (error + 's) option" where
  "forEach [] body s = Some (Inr s)"
| "forEach (a # as) body s = andThen (body a s) (forEach as body)"

text \<open>The property read \<open>cellToCheck.mined\<close>, which raises on \<open>null\<close>.\<close>

definition minedOf :: "cell option \<Rightarrow> error + bool" where
  "minedOf cellToCheck = (case cellToCheck of None \<Rightarrow> Inl TypeError | Some cl \<Rightarrow> Inr (mined cl))"

section \<open>Numbers of the host language\<close>

text \<open>
  The functions of the script that convert a string to a number take the conversion as
  the parameter \<open>ToNumber\<close>; \<open>stringToNumber\<close> below is the conversion of the language.
  \<open>isNaN\<close> is the global function of that name, and \<open>lessThanNum n v\<close> the comparison
  \<open>n < v\<close> of the integer \<open>n\<close> with a number.
\<close>

fun toNumber :: "(string \<Rightarrow> jsnum) \<Rightarrow> jsval \<Rightarrow> jsnum" where
  "toNumber ToNumber (JNumber n) = n"
| "toNumber ToNumber (JString s) = ToNumber s"

definition isNaN :: "(string \<Rightarrow> jsnum) \<Rightarrow> jsval \<Rightarrow> bool" where
  "isNaN ToNumber v = (toNumber ToNumber v = NaN)"

fun lessThanNum :: "int \<Rightarrow> jsnum \<Rightarrow> bool" where
  "lessThanNum n NaN = False"
| "lessThanNum n (Finite q) = (of_int n < q)"
| "lessThanNum n PosInfinity = True"
| "lessThanNum n NegInfinity = False"

text \<open>
  The conversion of a string to a number, as ECMAScript 2015 defines it
  (\<open>StringToNumber\<close>), for strings of characters below 256.  White space and line
  terminators around the literal are dropped; the empty string and a string of white
  space convert to 0; a string that is no numeric literal converts to \<open>NaN\<close>.  The
  value of a literal is kept exact where the language rounds it to a double: whether a
  string converts to \<open>NaN\<close>, and the value 0 of the empty string, do not depend on the
  rounding.
\<close>

definition isStrWhiteSpaceChar :: "char \<Rightarrow> bool" where
  "isStrWhiteSpaceChar ch =
     (ch \<in> set [CHR 0x09, CHR 0x0A, CHR 0x0B, CHR 0x0C, CHR 0x0D, CHR 0x20, CHR 0xA0])"

definition trimString :: "string \<Rightarrow> string" where
  "trimString s = rev (dropWhile isStrWhiteSpaceChar (rev (dropWhile isStrWhiteSpaceChar s)))"

text \<open>
  The value of a digit: \<open>0\<close> to \<open>9\<close>, \<open>a\<close> to \<open>f\<close> and \<open>A\<close> to \<open>F\<close>.  \<open>digitsOnly radix ds\<close>
  is the value of a sequence of at least one digit of the radix.
\<close>

definition digitOf :: "char \<Rightarrow> nat option" where
  "digitOf ch =
     (let n = (of_char ch :: nat) in
      if 48 \<le> n \<and> n \<le> 57 then Some (n - 48)
      else if 97 \<le> n \<and> n \<le> 102 then Some (n - 87)
      else if 65 \<le> n \<and> n \<le> 70 then Some (n - 55)
      else None)"

definition isDigit :: "nat \<Rightarrow> char \<Rightarrow> bool" where
  "isDigit radix ch = (case digitOf ch of None \<Rightarrow> False | Some v \<Rightarrow> v < radix)"

definition digitsValue :: "nat \<Rightarrow> string \<Rightarrow> nat" where
  "digitsValue radix ds =
     foldl (\<lambda>a ch. radix * a + (case digitOf ch of None \<Rightarrow> 0 | Some v \<Rightarrow> v)) 0 ds"

definition digitsOnly :: "nat \<Rightarrow> string \<Rightarrow> nat option" where
  "digitsOnly radix ds =
     (if ds \<noteq> [] \<and> list_all (isDigit radix) ds then Some (digitsValue radix ds) else None)"

text \<open>
  The exponent part of a decimal literal: nothing, or \<open>e\<close> or \<open>E\<close> and an integer with
  an optional sign.  \<open>None\<close>: the rest of the string is no exponent part.
\<close>

definition signedInteger :: "string \<Rightarrow> int option" where
  "signedInteger s =
     (case s of
        [] \<Rightarrow> None
      | ch # ds \<Rightarrow>
          if ch = CHR ''+'' then map_option int (digitsOnly 10 ds)
          else if ch = CHR ''-'' then map_option (\<lambda>n. - int n) (digitsOnly 10 ds)
          else map_option int (digitsOnly 10 s))"

definition exponentPart :: "string \<Rightarrow> int option" where
  "exponentPart s =
     (case s of
        [] \<Rightarrow> Some 0
      | ch # ds \<Rightarrow> if ch = CHR ''e'' \<or> ch = CHR ''E'' then signedInteger ds else None)"

definition timesPowerOfTen :: "nat \<Rightarrow> int \<Rightarrow> rat" where
  "timesPowerOfTen n e = (if 0 \<le> e then of_nat n * 10 ^ nat e else of_nat n / 10 ^ nat (- e))"

text \<open>
  The decimal literals: \<open>Infinity\<close>, or digits with an optional point and an optional
  exponent part, with a digit before or after the point; and a sign before either.
\<close>

definition strUnsignedDecimalLiteral :: "string \<Rightarrow> jsnum" where
  "strUnsignedDecimalLiteral s =
     (if s = ''Infinity'' then PosInfinity
      else
        (let intPart = takeWhile (isDigit 10) s;
             rest = dropWhile (isDigit 10) s;
             hasDot = (rest \<noteq> [] \<and> hd rest = CHR ''.'');
             fracPart = (if hasDot then takeWhile (isDigit 10) (tl rest) else []);
             expPart = (if hasDot then dropWhile (isDigit 10) (tl rest) else rest)
         in if intPart = [] \<and> fracPart = [] then NaN
            else
              (case exponentPart expPart of
                 None \<Rightarrow> NaN
               | Some e \<Rightarrow>
                   Finite (timesPowerOfTen (digitsValue 10 (intPart @ fracPart))
                             (e - int (length fracPart))))))"

fun negate :: "jsnum \<Rightarrow> jsnum" where
  "negate NaN = NaN"
| "negate (Finite q) = Finite (- q)"
| "negate PosInfinity = NegInfinity"
| "negate NegInfinity = PosInfinity"

definition strDecimalLiteral :: "string \<Rightarrow> jsnum" where
  "strDecimalLiteral s =
     (case s of
        [] \<Rightarrow> NaN
      | ch # t \<Rightarrow>
          if ch = CHR ''+'' then strUnsignedDecimalLiteral t
          else if ch = CHR ''-'' then negate (strUnsignedDecimalLiteral t)
          else strUnsignedDecimalLiteral s)"

text \<open>
  The literals of radix 16, 8 and 2 (\<open>0x\<close>, \<open>0o\<close>, \<open>0b\<close>) take no sign.
\<close>

definition nonDecimalIntegerLiteral :: "nat \<Rightarrow> string \<Rightarrow> jsnum" where
  "nonDecimalIntegerLiteral radix ds =
     (case digitsOnly radix ds of None \<Rightarrow> NaN | Some n \<Rightarrow> Finite (of_nat n))"

definition strNumericLiteral :: "string \<Rightarrow> jsnum" where
  "strNumericLiteral s =
     (case s of
        ch # p # ds \<Rightarrow>
          if ch = CHR ''0'' \<and> (p = CHR ''x'' \<or> p = CHR ''X'') then nonDecimalIntegerLiteral 16 ds
          else if ch = CHR ''0'' \<and> (p = CHR ''o'' \<or> p = CHR ''O'') then nonDecimalIntegerLiteral 8 ds
          else if ch = CHR ''0'' \<and> (p = CHR ''b'' \<or> p = CHR ''B'') then nonDecimalIntegerLiteral 2 ds
          else strDecimalLiteral s
      | _ \<Rightarrow> strDecimalLiteral s)"

definition stringToNumber :: "string \<Rightarrow> jsnum" where
  "stringToNumber s =
     (let t = trimString s in if t = [] then Finite 0 else strNumericLiteral t)"

text \<open>
  The counters \<open>data.stats.clicks\<close> and \<open>data.stats.minesPlanted\<close> are numbers of the
  language, doubles, with integer values.  \<open>roundToDouble x\<close> is the double nearest to
  the integer \<open>x\<close> (below \<open>2\<^sup>1\<^sup>0\<^sup>2\<^sup>4\<close> in magnitude), the one with the even significand
  of two that are equally near: every integer up to \<open>2\<^sup>5\<^sup>3\<close> in magnitude is a double,
  and beyond, the doubles are the multiples of the unit \<open>u\<close> that leaves 53 bits to the
  significand.  \<open>addNumber a b\<close> is the sum \<open>a + b\<close> that the click handler computes for
  its counters (\<open>+= 1\<close>, and \<open>-= 1\<close> as the sum with \<open>-1\<close>).  In \<open>plantAllMines\<close> the
  counter is the number of mined cells of the grid, and the sum is written as the exact
  one.
\<close>

definition roundToDouble :: "int \<Rightarrow> int" where
  "roundToDouble x =
     (if \<bar>x\<bar> \<le> 2 ^ 53 then x
      else
        (let u = 2 ^ nat (bitlen \<bar>x\<bar> - 53); q = x div u; r = x mod u in
         if 2 * r < u \<or> (2 * r = u \<and> even q) then q * u else (q + 1) * u))"

definition addNumber :: "int \<Rightarrow> int \<Rightarrow> int" where
  "addNumber a b = roundToDouble (a + b)"

section \<open>Creating a game\<close>

text \<open>
  \<open>utility.generateGrid\<close>.  \<open>sizeOfGame\<close> is the number of the option selected in
  \<open>.gamesize\<close> (1, 2 or 4) and \<open>numberOfMines\<close> the string of the field \<open>.minenumber\<close>.
\<close>

definition generateGrid :: "(string \<Rightarrow> jsnum) \<Rightarrow> int \<Rightarrow> string \<Rightarrow> data \<Rightarrow> data" where
  "generateGrid ToNumber sizeOfGame numberOfMines d =
     (let st1 = (stats d)\<lparr>rows := rows (stats d) * sizeOfGame\<rparr>;
          st2 = st1\<lparr>cols := cols st1 * sizeOfGame\<rparr>;
          st3 = (if \<not> isNaN ToNumber (JString numberOfMines)
                 then st2\<lparr>mines := JString numberOfMines\<rparr> else st2);
          randomGrid = map (\<lambda>r. map (\<lambda>c. \<lparr>mined = False\<rparr>) [0..<nat (cols st3)]) [0..<nat (rows st3)]
      in d\<lparr>stats := st3, grid := Some randomGrid\<rparr>)"

text \<open>
  \<open>utility.plantMine\<close>: the result is the boolean it returns and the game after it.
\<close>

definition plantMine :: "int \<Rightarrow> int \<Rightarrow> data \<Rightarrow> error + (bool \<times> data)" where
  "plantMine r c d =
     (case gridAt (grid d) r c of
        Inl e \<Rightarrow> Inl e
      | Inr None \<Rightarrow> Inr (False, d)
      | Inr (Some cellToPlant) \<Rightarrow>
          if \<not> mined cellToPlant then
            Inr (True, d\<lparr>grid := map_option
                   (\<lambda>g. g[nat r := (g ! nat r)[nat c := cellToPlant\<lparr>mined := True\<rparr>]]) (grid d)\<rparr>)
          else Inr (False, d))"

text \<open>
  \<open>utility.plantAllMines\<close>.  \<open>random\<close> is the sequence of the values that
  \<open>Math.random()\<close> returns, and \<open>i\<close> the number of values the game has drawn so far;
  every turn of the loop draws two.
\<close>

partial_function (option) plantAllMines ::
  "(string \<Rightarrow> jsnum) \<Rightarrow> (nat \<Rightarrow> rat) \<Rightarrow> nat \<Rightarrow> data \<Rightarrow> (error + data) option" where
  "plantAllMines ToNumber random i d =
     (if lessThanNum (minesPlanted (stats d)) (toNumber ToNumber (mines (stats d))) then
        (case plantMine \<lfloor>random i * of_int (rows (stats d))\<rfloor>
                        \<lfloor>random (i + 1) * of_int (cols (stats d))\<rfloor> d of
           Inl e \<Rightarrow> Some (Inl e)
         | Inr (planted, d') \<Rightarrow>
             plantAllMines ToNumber random (i + 2)
               (if planted
                then d'\<lparr>stats := (stats d')\<lparr>minesPlanted := minesPlanted (stats d') + 1\<rparr>\<rparr>
                else d'))
      else Some (Inr d))"

text \<open>
  \<open>utility.buildGrid\<close>: a table of \<open>data.stats.rows\<close> rows of \<open>data.stats.cols\<close> cells,
  each with the class \<open>unknown\<close>.
\<close>

definition buildGrid :: "data \<Rightarrow> data" where
  "buildGrid d =
     d\<lparr>tds := map (\<lambda>r. map (\<lambda>c. {Unknown}) [0..<nat (cols (stats d))]) [0..<nat (rows (stats d))]\<rparr>"

text \<open>
  \<open>events.init\<close> for a new game (no \<open>savedData\<close>): \<open>resetGame\<close> is its reset of the
  data to the defaults, which removes the result of the game before.  The timer, the
  click bindings and the text of the statistics area are not modelled.
\<close>

definition resetGame :: "data \<Rightarrow> data" where
  "resetGame d =
     d\<lparr>gameresult := None,
       stats := \<lparr>clicks = 0, cols = 8, mines = JNumber (Finite 10),
                 minesPlanted = 0, rows = 8, seconds = 0\<rparr>,
       grid := None, active := False\<rparr>"

definition init ::
  "(string \<Rightarrow> jsnum) \<Rightarrow> (nat \<Rightarrow> rat) \<Rightarrow> int \<Rightarrow> string \<Rightarrow> data \<Rightarrow> (error + data) option" where
  "init ToNumber random sizeOfGame numberOfMines d =
     andThen
       (plantAllMines ToNumber random 0 (generateGrid ToNumber sizeOfGame numberOfMines (resetGame d)))
       (\<lambda>d2. Some (Inr ((buildGrid d2)\<lparr>active := True\<rparr>)))"

section \<open>Revealing empty cells\<close>

lemma andThen_mono [partial_function_mono]:
  assumes "mono_option m" and "\<And>a. mono_option (\<lambda>f. k f a)"
  shows "mono_option (\<lambda>f. andThen (m f) (k f))"
proof -
  have "(\<lambda>f. andThen (m f) (k f)) =
        (\<lambda>f. Option.bind (m f) (\<lambda>res. case res of Inl e \<Rightarrow> Some (Inl e) | Inr a \<Rightarrow> k f a))"
    by (auto simp: fun_eq_iff andThen_def split: option.splits sum.splits)
  moreover have "mono_option (\<lambda>f. Option.bind (m f) (\<lambda>res. case res of Inl e \<Rightarrow> Some (Inl e) | Inr a \<Rightarrow> k f a))"
  proof (rule bind_mono [OF assms(1)])
    fix res :: "error + 'c"
    show "mono_option (\<lambda>f. case res of Inl e \<Rightarrow> Some (Inl e) | Inr a \<Rightarrow> k f a)"
      by (cases res) (simp_all add: option.const_mono assms(2))
  qed
  ultimately show ?thesis by simp
qed

lemma forEach_mono [partial_function_mono]:
  assumes "\<And>a s. mono_option (\<lambda>f. body f a s)"
  shows "mono_option (\<lambda>f. forEach as (body f) s)"
proof (induction as arbitrary: s)
  case Nil
  show ?case by (simp add: option.const_mono)
next
  case (Cons a as)
  show ?case
    unfolding forEach.simps by (rule andThen_mono [OF assms Cons.IH])
qed

text \<open>
  \<open>utility.revealEmptyAdjacent\<close>.  The variables \<open>cellToCheck\<close> and \<open>num\<close> are computed
  before the test, as in the source; in the test, \<open>cellToCheck.mined\<close> is read only when
  the \<open>td\<close> has the class \<open>unknown\<close>.
\<close>

partial_function (option) revealEmptyAdjacent :: "int \<Rightarrow> int \<Rightarrow> data \<Rightarrow> (error + data) option" where
  "revealEmptyAdjacent r c d =
     (if r < 0 \<or> r \<ge> rows (stats d) \<or> c < 0 \<or> c \<ge> cols (stats d) then Some (Inr d)
      else
        (case getCell d r c of
           Inl e \<Rightarrow> Some (Inl e)
         | Inr cellToCheck \<Rightarrow>
            (case countSurroundingMines d r c of
               Inl e \<Rightarrow> Some (Inl e)
             | Inr num \<Rightarrow>
                 if \<not> hasClass (tds d) r c Unknown then Some (Inr d)
                 else
                   (case minedOf cellToCheck of
                      Inl e \<Rightarrow> Some (Inl e)
                    | Inr isMined \<Rightarrow>
                        if isMined \<or> num > 0 then Some (Inr d)
                        else
                          forEach directions
                            (\<lambda>dir d'. revealEmptyAdjacent (r + snd dir) (c + fst dir) d')
                            (d\<lparr>tds := changeClasses (\<lambda>k. insert Empty (k - {Unknown})) r c (tds d)\<rparr>)))))"

section \<open>Validation\<close>

text \<open>\<open>utility.isGameActive\<close>.\<close>

definition isGameActive :: "data \<Rightarrow> bool" where
  "isGameActive d = (if grid d = None \<or> \<not> active d then False else True)"

text \<open>
  The first loop of \<open>events.validate\<close>, over every \<open>td\<close> of the table, with the
  variables \<open>result\<close> and \<open>numUnknownWithMine\<close> as accumulator.  Each of the two tests
  reads \<open>cellToCheck.mined\<close> only when the class test before it holds.
\<close>

fun validateScan :: "data \<Rightarrow> (int \<times> int) list \<Rightarrow> string \<times> nat \<Rightarrow> error + (string \<times> nat)" where
  "validateScan d [] acc = Inr acc"
| "validateScan d (td # rest) acc =
     bindE (getCell d (fst td) (snd td)) (\<lambda>cellToCheck.
     bindE (if hasClass (tds d) (fst td) (snd td) Unknown
            then bindE (minedOf cellToCheck) (\<lambda>m. Inr (if m then snd acc + 1 else snd acc))
            else Inr (snd acc)) (\<lambda>numUnknownWithMine.
     bindE (if hasClass (tds d) (fst td) (snd td) Flagged
            then bindE (minedOf cellToCheck) (\<lambda>m. Inr (if \<not> m then ''You Lose!'' else fst acc))
            else Inr (fst acc)) (\<lambda>result.
     validateScan d rest (result, numUnknownWithMine))))"

text \<open>
  The second loop, over the \<open>td\<close> elements that had the class \<open>unknown\<close> when it
  started: the mined ones are shown as missed.
\<close>

fun markMissed :: "(int \<times> int) list \<Rightarrow> data \<Rightarrow> error + data" where
  "markMissed [] d = Inr d"
| "markMissed (td # rest) d =
     bindE (getCell d (fst td) (snd td)) (\<lambda>cellToCheck.
     bindE (minedOf cellToCheck) (\<lambda>m.
     markMissed rest
       (if m then d\<lparr>tds := changeClasses (\<lambda>k. (k - {Unknown}) \<union> {Sprite, Mined, Miss})
                              (fst td) (snd td) (tds d)\<rparr>
        else d)))"

text \<open>\<open>events.validate\<close>.  The timer and the click bindings are not modelled.\<close>

definition validate :: "data \<Rightarrow> error + data" where
  "validate d =
     (if \<not> isGameActive d then
        Inr (d\<lparr>modal := Some (''Error'',
          ''You must be actively playing a game in order to <strong>validate</strong>.'')\<rparr>)
      else
        (let d1 = d\<lparr>active := False\<rparr> in
         bindE (validateScan d1 (allTds (tds d1)) (''You Win!'', 0)) (\<lambda>(result, numUnknownWithMine).
           if numUnknownWithMine \<noteq> 0 \<and> numUnknownWithMine \<noteq> length (unknownTds (tds d1)) then
             bindE (markMissed (unknownTds (tds d1)) d1) (\<lambda>d2.
               Inr (d2\<lparr>gameresult := Some ''You Lose!''\<rparr>))
           else Inr (d1\<lparr>gameresult := Some result\<rparr>))))"

section \<open>Clicking a cell\<close>

text \<open>
  \<open>events.cellClicked\<close> for the \<open>td\<close> with \<open>data-row = r\<close> and \<open>data-col = c\<close>;
  \<open>shiftKey\<close> is \<open>event.shiftKey\<close>.  Two blocks of the handler are definitions of
  their own: \<open>toggleFlag\<close> is the branch of a click with the shift key, and
  \<open>autoValidate\<close> the two tests that follow a click on a cell without mine while the
  game is active.  \<open>events.updateStats\<close> only writes the statistics area and is not
  modelled.
\<close>

definition toggleFlag :: "int \<Rightarrow> int \<Rightarrow> data \<Rightarrow> data" where
  "toggleFlag r c d =
     (let d2 = d\<lparr>tds := changeClasses (\<lambda>k. insert Sprite (k - {Unknown})) r c (tds d)\<rparr> in
      if hasClass (tds d2) r c Flagged then
        d2\<lparr>tds := changeClasses (\<lambda>k. insert Unknown (k - {Flagged})) r c (tds d2),
           stats := (stats d2)\<lparr>minesPlanted := addNumber (minesPlanted (stats d2)) 1\<rparr>\<rparr>
      else
        d2\<lparr>tds := changeClasses (\<lambda>k. insert Flagged k) r c (tds d2),
           stats := (stats d2)\<lparr>minesPlanted := addNumber (minesPlanted (stats d2)) (- 1)\<rparr>\<rparr>)"

definition autoValidate :: "data \<Rightarrow> error + data" where
  "autoValidate d =
     bindE (if minesPlanted (stats d) = 0 then validate d else Inr d) (\<lambda>d'.
       if int (length (unknownTds (tds d'))) \<le> minesPlanted (stats d') then validate d'
       else Inr d')"

text \<open>
  \<open>currentCell\<close> is computed before the click is counted, as in the source.  The
  intermediate result pairs the variable \<open>clickedMine\<close> with the game.
\<close>

definition cellClicked :: "bool \<Rightarrow> int \<Rightarrow> int \<Rightarrow> data \<Rightarrow> (error + data) option" where
  "cellClicked shiftKey r c d =
     andThen (Some (getCell d r c)) (\<lambda>currentCell.
       let d1 = d\<lparr>stats := (stats d)\<lparr>clicks := addNumber (clicks (stats d)) 1\<rparr>\<rparr> in
       (case currentCell of
          None \<Rightarrow> Some (Inr d1)
        | Some cur \<Rightarrow>
            andThen
              (if shiftKey then Some (Inr (False, toggleFlag r c d1))
               else if \<not> mined cur then
                 andThen (Some (countSurroundingMines d1 r c)) (\<lambda>num.
                   if num = 0 then
                     andThen (revealEmptyAdjacent r c d1) (\<lambda>d2. Some (Inr (False, d2)))
                   else
                     Some (Inr (False,
                       d1\<lparr>tds := changeClasses (\<lambda>k. (k - {Unknown}) \<union> {Sprite, Empty, Number num})
                                    r c (tds d1)\<rparr>)))
               else
                 andThen
                   (Some (validate (d1\<lparr>tds := changeClasses (\<lambda>k. k \<union> {Mined, Sprite}) r c (tds d1)\<rparr>)))
                   (\<lambda>d2. Some (Inr (True, d2))))
              (\<lambda>(clickedMine, d2).
                 if \<not> clickedMine \<and> isGameActive d2 then Some (autoValidate d2)
                 else Some (Inr d2))))"

section \<open>Well-formed games\<close>

text \<open>
  \<open>generateGrid\<close> builds \<open>data.grid\<close> with \<open>data.stats.rows\<close> rows of \<open>data.stats.cols\<close>
  cells, and \<open>buildGrid\<close> a table of the same shape.
\<close>

definition gridOK :: "data \<Rightarrow> bool" where
  "gridOK d =
     (case grid d of
        None \<Rightarrow> False
      | Some g \<Rightarrow> int (length g) = rows (stats d) \<and> list_all (\<lambda>rw. int (length rw) = cols (stats d)) g)"

text \<open>
  The coordinates of the board.  A cell has a mine when \<open>getCell\<close> returns a mined
  cell for it.
\<close>

definition inBounds :: "data \<Rightarrow> int \<Rightarrow> int \<Rightarrow> bool" where
  "inBounds d r c = (0 \<le> r \<and> r < rows (stats d) \<and> 0 \<le> c \<and> c < cols (stats d))"

definition hasMine :: "data \<Rightarrow> int \<Rightarrow> int \<Rightarrow> bool" where
  "hasMine d r c = (case getCell d r c of Inr (Some cellAt) \<Rightarrow> mined cellAt | _ \<Rightarrow> False)"

definition sameElsewhere :: "data \<Rightarrow> data \<Rightarrow> int \<Rightarrow> int \<Rightarrow> bool" where
  "sameElsewhere d d' row col =
     (gridOK d' \<and> rows (stats d') = rows (stats d) \<and> cols (stats d') = cols (stats d) \<and>
      (\<forall>r c. (r, c) \<noteq> (row, col) \<longrightarrow> hasMine d' r c = hasMine d r c))"

text \<open>
  The table has a \<open>td\<close> for every cell of the board, and a game is well formed when
  both its grid and its table have the shape of the board.  \<open>tdExists t r c\<close>: the
  table has a \<open>td\<close> in row \<open>r\<close> and column \<open>c\<close>.
\<close>

definition tableOK :: "data \<Rightarrow> bool" where
  "tableOK d =
     (int (length (tds d)) = rows (stats d) \<and>
      list_all (\<lambda>tr. int (length tr) = cols (stats d)) (tds d))"

definition wellFormed :: "data \<Rightarrow> bool" where
  "wellFormed d = (gridOK d \<and> tableOK d)"

definition tdExists :: "cssClass set list list \<Rightarrow> int \<Rightarrow> int \<Rightarrow> bool" where
  "tdExists t r c = (0 \<le> r \<and> r < int (length t) \<and> 0 \<le> c \<and> c < int (length (t ! nat r)))"

section \<open>Notions of the specification\<close>

text \<open>
  The cells of the board, and the number of mined cells among them.
\<close>

definition allCells :: "data \<Rightarrow> (int \<times> int) list" where
  "allCells d = List.product [0..rows (stats d) - 1] [0..cols (stats d) - 1]"

definition countMined :: "data \<Rightarrow> nat" where
  "countMined d = length (filter (\<lambda>(r, c). hasMine d r c) (allCells d))"

text \<open>
  \<open>Math.random()\<close> returns values in \<open>[0, 1)\<close>.  \<open>pick random i st\<close> is the cell that
  the turn of \<open>plantAllMines\<close> starting at position \<open>i\<close> of the sequence draws.  A
  sequence is fair from \<open>i\<close> on when, however many turns have passed, every cell of
  the board is drawn again.
\<close>

definition unitValues :: "(nat \<Rightarrow> rat) \<Rightarrow> bool" where
  "unitValues random = (\<forall>i. 0 \<le> random i \<and> random i < 1)"

definition pick :: "(nat \<Rightarrow> rat) \<Rightarrow> nat \<Rightarrow> stats \<Rightarrow> int \<times> int" where
  "pick random i st =
     (\<lfloor>random i * of_int (rows st)\<rfloor>, \<lfloor>random (i + 1) * of_int (cols st)\<rfloor>)"

definition fair :: "(nat \<Rightarrow> rat) \<Rightarrow> nat \<Rightarrow> stats \<Rightarrow> bool" where
  "fair random i st =
     (\<forall>r c n. 0 \<le> r \<and> r < rows st \<and> 0 \<le> c \<and> c < cols st \<longrightarrow>
        (\<exists>k\<ge>n. pick random (i + 2 * k) st = (r, c)))"

text \<open>
  The state of the loop of \<open>plantAllMines\<close>: the counter \<open>minesPlanted\<close> is the number
  of mined cells.  \<open>mineFree\<close> is the grid as \<open>generateGrid\<close> leaves it.
\<close>

definition planted :: "data \<Rightarrow> bool" where
  "planted d =
     (gridOK d \<and> 1 \<le> rows (stats d) \<and> 1 \<le> cols (stats d) \<and>
      minesPlanted (stats d) = int (countMined d))"

definition mineFree :: "data \<Rightarrow> bool" where
  "mineFree d = (gridOK d \<and> countMined d = 0 \<and> minesPlanted (stats d) = 0)"

text \<open>
  Two cells are adjacent when one of the eight directions leads from the first to the
  second.  A cell is passable when \<open>revealEmptyAdjacent\<close> goes on from it: it is on the
  board, its \<open>td\<close> has the class \<open>unknown\<close>, it has no mine and no adjacent mine.
  \<open>reach A origin\<close> is the connected part of the set \<open>A\<close> that holds \<open>origin\<close>, and
  \<open>region d p\<close> the connected region of passable cells around \<open>p\<close>.
\<close>

definition adjacent :: "int \<times> int \<Rightarrow> int \<times> int \<Rightarrow> bool" where
  "adjacent p q = ((snd q - snd p, fst q - fst p) \<in> set directions)"

definition passable :: "data \<Rightarrow> int \<times> int \<Rightarrow> bool" where
  "passable d p =
     (inBounds d (fst p) (snd p) \<and> hasClass (tds d) (fst p) (snd p) Unknown \<and>
      \<not> hasMine d (fst p) (snd p) \<and> countSurroundingMines d (fst p) (snd p) = Inr 0)"

inductive_set reach :: "(int \<times> int) set \<Rightarrow> int \<times> int \<Rightarrow> (int \<times> int) set"
  for A :: "(int \<times> int) set" and origin :: "int \<times> int" where
  origin: "origin \<in> A \<Longrightarrow> origin \<in> reach A origin"
| step: "p \<in> reach A origin \<Longrightarrow> adjacent p q \<Longrightarrow> q \<in> A \<Longrightarrow> q \<in> reach A origin"

definition region :: "data \<Rightarrow> int \<times> int \<Rightarrow> (int \<times> int) set" where
  "region d p = reach {q. passable d q} p"

text \<open>
  The table after the cells of \<open>S\<close> are shown as empty: each loses the class \<open>unknown\<close>
  and gets the class \<open>empty\<close>.  \<open>sweep A ns\<close> is what the loop over the neighbours \<open>ns\<close>
  of a cell reveals, each neighbour finding the cells not revealed before it.
\<close>

definition revealCells :: "(int \<times> int) set \<Rightarrow> cssClass set list list \<Rightarrow> cssClass set list list" where
  "revealCells S t =
     map (\<lambda>r. map (\<lambda>c. if (int r, int c) \<in> S then insert Empty (t ! r ! c - {Unknown}) else t ! r ! c)
                 [0..<length (t ! r)])
         [0..<length t]"

definition reveal :: "(int \<times> int) set \<Rightarrow> data \<Rightarrow> data" where
  "reveal S d = d\<lparr>tds := revealCells S (tds d)\<rparr>"

fun sweep :: "(int \<times> int) set \<Rightarrow> (int \<times> int) list \<Rightarrow> (int \<times> int) set" where
  "sweep A [] = {}"
| "sweep A (n # ns) = reach A n \<union> sweep (A - reach A n) ns"

text \<open>
  The cells that a call reveals: those whose \<open>td\<close> loses the class \<open>unknown\<close>.  The
  cells of the board without mine and without adjacent mine, whatever their \<open>td\<close>
  shows, and the numbered cells, which have an adjacent mine.
\<close>

definition revealedBy :: "data \<Rightarrow> data \<Rightarrow> int \<times> int \<Rightarrow> bool" where
  "revealedBy d d' p =
     (hasClass (tds d) (fst p) (snd p) Unknown \<and> \<not> hasClass (tds d') (fst p) (snd p) Unknown)"

definition zeroCells :: "data \<Rightarrow> (int \<times> int) set" where
  "zeroCells d =
     {p. inBounds d (fst p) (snd p) \<and> \<not> hasMine d (fst p) (snd p) \<and>
         countSurroundingMines d (fst p) (snd p) = Inr 0}"

definition numbered :: "data \<Rightarrow> int \<times> int \<Rightarrow> bool" where
  "numbered d p =
     (inBounds d (fst p) (snd p) \<and>
      (case countSurroundingMines d (fst p) (snd p) of Inl e \<Rightarrow> False | Inr n \<Rightarrow> n \<ge> 1))"

text \<open>
  The two facts \<open>validate\<close> decides on: a flagged \<open>td\<close> whose cell has no mine, and
  the number of \<open>td\<close> elements with the class \<open>unknown\<close> whose cell has a mine.
\<close>

definition falseFlag :: "data \<Rightarrow> bool" where
  "falseFlag d =
     list_ex (\<lambda>p. hasClass (tds d) (fst p) (snd p) Flagged \<and> \<not> hasMine d (fst p) (snd p))
       (allTds (tds d))"

definition unknownMined :: "data \<Rightarrow> nat" where
  "unknownMined d = length (filter (\<lambda>p. hasMine d (fst p) (snd p)) (unknownTds (tds d)))"

section \<open>Example games\<close>

text \<open>A game as \<open>generateGrid\<close> leaves it: \<open>rs\<close> rows of \<open>cs\<close> cells, none mined.\<close>

definition freshGame :: "int \<Rightarrow> int \<Rightarrow> jsval \<Rightarrow> data" where
  "freshGame rs cs m =
     \<lparr>active = False,
      grid = Some (map (\<lambda>r. map (\<lambda>c. \<lparr>mined = False\<rparr>) [0..<nat cs]) [0..<nat rs]),
      stats = \<lparr>clicks = 0, cols = cs, mines = m, minesPlanted = 0, rows = rs, seconds = 0\<rparr>,
      tds = [], gameresult = None, modal = None\<rparr>"

text \<open>A game in play, from the mines of its grid and the classes of its table.\<close>

definition exampleGame :: "int \<Rightarrow> int \<Rightarrow> bool list list \<Rightarrow> cssClass set list list \<Rightarrow> data" where
  "exampleGame rs cs ms t =
     \<lparr>active = True, grid = Some (map (map (\<lambda>b. \<lparr>mined = b\<rparr>)) ms),
      stats = \<lparr>clicks = 0, cols = cs, mines = JNumber (Finite 10), minesPlanted = 0,
               rows = rs, seconds = 0\<rparr>,
      tds = t, gameresult = None, modal = None\<rparr>"

definition corner :: data where
  "corner = exampleGame 2 2 [[False, True], [True, False]]
              [[{Unknown}, {Unknown}], [{Unknown}, {Unknown}]]"

definition cornerMined :: data where
  "cornerMined = exampleGame 2 2 [[True, True], [True, False]]
              [[{Unknown}, {Unknown}], [{Unknown}, {Unknown}]]"

text \<open>
  Boards of one row.  \<open>strip\<close>: five cells, the last mined, the second flagged.
  \<open>flaggedRow\<close>: three cells without mine, the middle one flagged.  \<open>openRow\<close>: three
  cells, the last mined.
\<close>

definition strip :: data where
  "strip = exampleGame 1 5 [[False, False, False, False, True]]
             [[{Unknown}, {Flagged, Sprite}, {Unknown}, {Unknown}, {Unknown}]]"

definition flaggedRow :: data where
  "flaggedRow = exampleGame 1 3 [[False, False, False]] [[{Unknown}, {Flagged, Sprite}, {Unknown}]]"

definition openRow :: data where
  "openRow = exampleGame 1 3 [[False, False, True]] [[{Unknown}, {Unknown}, {Unknown}]]"


text \<open>
  The game after \<open>init\<close> on the board of 8 rows and 8 columns when 64 mines were asked:
  every cell is mined.
\<close>

definition allMined :: data where
  "allMined =
     \<lparr>active = True, grid = Some (replicate 8 (replicate 8 \<lparr>mined = True\<rparr>)),
      stats = \<lparr>clicks = 0, cols = 8, mines = JString ''64'', minesPlanted = 64, rows = 8,
               seconds = 0\<rparr>,
      tds = replicate 8 (replicate 8 {Unknown}), gameresult = None, modal = None\<rparr>"

text \<open>
  The data before the first game, a conversion of strings to numbers that knows the
  string \<open>64\<close>, and a sequence of random values that draws the cells of a board of 8
  rows and 8 columns row by row, again and again.
\<close>

definition blank :: data where
  "blank =
     \<lparr>active = False, grid = None,
      stats = \<lparr>clicks = 0, cols = 8, mines = JNumber (Finite 10), minesPlanted = 0, rows = 8,
               seconds = 0\<rparr>,
      tds = [], gameresult = None, modal = None\<rparr>"

definition sixtyFour :: "string \<Rightarrow> jsnum" where
  "sixtyFour s = (if s = ''64'' then Finite 64 else NaN)"

definition rowByRow :: "nat \<Rightarrow> rat" where
  "rowByRow i = of_nat ((if even i then i div 16 else i div 2) mod 8) / 8"

text \<open>A sequence of random values that draws the two cells of a board of one row in turn.\<close>

definition alternate :: "nat \<Rightarrow> rat" where
  "alternate i = (if i mod 4 = 3 then 1 / 2 else 0)"

section \<open>Evaluation\<close>

text \<open>The definitions that evaluate the model on an example game.\<close>

lemmas eval_defs = exampleGame_def gridOK_def inBounds_def hasMine_def hasClass_def passable_def
  countSurroundingMines_def directions_def getCell_def gridAt_def reveal_def revealCells_def
  adjacent_def

lemmas number_defs = stringToNumber_def trimString_def isStrWhiteSpaceChar_def
  strNumericLiteral_def strDecimalLiteral_def strUnsignedDecimalLiteral_def
  nonDecimalIntegerLiteral_def digitsOnly_def digitsValue_def isDigit_def digitOf_def
  exponentPart_def signedInteger_def timesPowerOfTen_def

lemmas table_defs = tableOK_def wellFormed_def isGameActive_def falseFlag_def unknownMined_def
  unknownTds_def allTds_def

section \<open>Counting adjacent mines\<close>

lemma getCell_gridOK:
  assumes "gridOK d"
  shows "getCell d r c = Inr (if inBounds d r c then Some (the (grid d) ! nat r ! nat c) else None)"
proof (cases "grid d")
  case None
  with assms show ?thesis by (simp add: gridOK_def)
next
  case (Some g)
  with assms have len: "int (length g) = rows (stats d)"
    and rws: "\<And>rw. rw \<in> set g \<Longrightarrow> int (length rw) = cols (stats d)"
    by (auto simp: gridOK_def list_all_iff)
  show ?thesis
  proof (cases "inBounds d r c")
    case False
    then show ?thesis by (auto simp: getCell_def inBounds_def)
  next
    case True
    then have r: "0 \<le> r" "nat r < length g" and c: "0 \<le> c" "c < cols (stats d)"
      using len by (auto simp: inBounds_def)
    from r have "g ! nat r \<in> set g" by simp
    then have "int (length (g ! nat r)) = cols (stats d)" by (rule rws)
    with True r c Some len show ?thesis
      by (simp add: getCell_def gridAt_def inBounds_def)
  qed
qed

lemma hasMine_inBounds: "hasMine d r c \<Longrightarrow> inBounds d r c"
  by (simp add: hasMine_def getCell_def inBounds_def split: if_splits)

lemma hasMine_gridOK:
  "gridOK d \<Longrightarrow> hasMine d r c = (inBounds d r c \<and> mined (the (grid d) ! nat r ! nat c))"
  by (simp add: hasMine_def getCell_gridOK)

lemma hasMine_same:
  "grid d' = grid d \<Longrightarrow> rows (stats d') = rows (stats d) \<Longrightarrow> cols (stats d') = cols (stats d) \<Longrightarrow>
   hasMine d' r c = hasMine d r c"
  by (simp add: hasMine_def getCell_def)

lemma countFrom_gridOK:
  assumes "gridOK d"
  shows "countFrom d row col ds n =
           Inr (n + length (filter (\<lambda>dir. hasMine d (row + snd dir) (col + fst dir)) ds))"
proof (induction ds arbitrary: n)
  case Nil
  show ?case by simp
next
  case (Cons dir ds)
  show ?case
    by (simp add: getCell_gridOK [OF assms] Cons.IH hasMine_def)
qed

lemma countSurroundingMines_gridOK:
  "gridOK d \<Longrightarrow>
   countSurroundingMines d row col =
     Inr (length (filter (\<lambda>dir. hasMine d (row + snd dir) (col + fst dir)) directions))"
  by (simp add: countSurroundingMines_def countFrom_gridOK)

lemma directions_not_self: "dir \<in> set directions \<Longrightarrow> dir \<noteq> (0, 0)"
  by (auto simp: directions_def)

lemma length_directions: "length directions = 8"
  by (simp add: directions_def)

text \<open>
  C6. On a well-formed grid, for every integer coordinate pair, \<open>countSurroundingMines\<close>
  returns the number of the eight offsets \<open>(x, y)\<close> of the specification whose cell
  \<open>(row + y, col + x)\<close> is on the board and mined; an offset that leaves the board adds
  nothing; the result is at most 8; and the cell \<open>(row, col)\<close> itself is not counted:
  the result is the same on every grid that differs in that cell only.
\<close>

theorem countSurroundingMines_counts_neighbours:
  assumes "gridOK d"
  shows "countSurroundingMines d row col =
           Inr (length (filter (\<lambda>(a, b). inBounds d (row + b) (col + a) \<and> hasMine d (row + b) (col + a))
                  [(-1, 0), (-1, 1), (0, 1), (1, 1), (1, 0), (1, -1), (0, -1), (-1, -1)])) \<and>
         (\<exists>n. countSurroundingMines d row col = Inr n \<and> 0 \<le> n \<and> n \<le> 8) \<and>
         (sameElsewhere d d' row col \<longrightarrow>
            countSurroundingMines d' row col = countSurroundingMines d row col)"
proof -
  let ?near = "\<lambda>d. filter (\<lambda>dir. hasMine d (row + snd dir) (col + fst dir)) directions"
  have eq: "countSurroundingMines d row col = Inr (length (?near d))"
    using assms by (rule countSurroundingMines_gridOK)
  have pred: "(\<lambda>(a, b). inBounds d (row + b) (col + a) \<and> hasMine d (row + b) (col + a)) =
              (\<lambda>dir. hasMine d (row + snd dir) (col + fst dir))"
    by (auto simp: fun_eq_iff dest: hasMine_inBounds)
  have first: "countSurroundingMines d row col =
           Inr (length (filter (\<lambda>(a, b). inBounds d (row + b) (col + a) \<and> hasMine d (row + b) (col + a))
                  [(-1, 0), (-1, 1), (0, 1), (1, 1), (1, 0), (1, -1), (0, -1), (-1, -1)]))"
    unfolding eq pred directions_def [symmetric] ..
  have "length (?near d) \<le> length directions"
    by (rule length_filter_le)
  then have second: "\<exists>n. countSurroundingMines d row col = Inr n \<and> 0 \<le> n \<and> n \<le> 8"
    unfolding eq length_directions by simp
  have third: "countSurroundingMines d' row col = countSurroundingMines d row col"
    if same: "sameElsewhere d d' row col"
  proof -
    from same have ok': "gridOK d'"
      and mines_eq: "\<And>r c. (r, c) \<noteq> (row, col) \<Longrightarrow> hasMine d' r c = hasMine d r c"
      by (auto simp: sameElsewhere_def)
    have "?near d' = ?near d"
    proof (rule filter_cong [OF refl])
      fix dir assume "dir \<in> set directions"
      then have "dir \<noteq> (0, 0)" by (rule directions_not_self)
      then have "(row + snd dir, col + fst dir) \<noteq> (row, col)"
        by (cases dir) auto
      then show "hasMine d' (row + snd dir) (col + fst dir) = hasMine d (row + snd dir) (col + fst dir)"
        by (rule mines_eq)
    qed
    then show ?thesis
      unfolding eq countSurroundingMines_gridOK [OF ok'] by simp
  qed
  from first second third show ?thesis by blast
qed


theorem countSurroundingMines_counts_neighbours_witness:
  "gridOK corner \<and> sameElsewhere corner cornerMined 0 0 \<and>
   countSurroundingMines corner 0 0 = Inr 2 \<and> countSurroundingMines cornerMined 0 0 = Inr 2"
proof -
  have ok: "gridOK corner" by (simp add: gridOK_def corner_def exampleGame_def)
  have same: "sameElsewhere corner cornerMined 0 0"
  proof -
    have "hasMine cornerMined r c = hasMine corner r c" if "(r, c) \<noteq> (0, 0)" for r c
    proof (cases "(r = 0 \<or> r = 1) \<and> (c = 0 \<or> c = 1)")
      case True
      with that show ?thesis
        by (auto simp: hasMine_def getCell_def gridAt_def corner_def cornerMined_def exampleGame_def)
    next
      case False
      then have "\<not> inBounds corner r c" "\<not> inBounds cornerMined r c"
        by (auto simp: inBounds_def corner_def cornerMined_def exampleGame_def)
      then show ?thesis using hasMine_inBounds by blast
    qed
    then show ?thesis
      by (simp add: sameElsewhere_def gridOK_def corner_def cornerMined_def exampleGame_def)
  qed
  have "countSurroundingMines corner 0 0 = Inr 2"
    using countSurroundingMines_counts_neighbours [OF ok, of 0 0 cornerMined]
    by (simp add: hasMine_def getCell_def gridAt_def inBounds_def corner_def exampleGame_def)
  with ok same countSurroundingMines_counts_neighbours [OF ok, of 0 0 cornerMined]
  show ?thesis by simp
qed

section \<open>Planting the mines\<close>

lemma set_allCells: "set (allCells d) = {(r, c). inBounds d r c}"
  by (auto simp: allCells_def inBounds_def)

lemma distinct_allCells: "distinct (allCells d)"
  by (simp add: allCells_def distinct_product)

lemma countMined_card: "countMined d = card {(r, c). hasMine d r c}"
proof -
  have "{x. (\<lambda>(r, c). hasMine d r c) x} \<inter> set (allCells d) = {(r, c). hasMine d r c}"
    by (auto simp: set_allCells dest: hasMine_inBounds)
  then show ?thesis
    by (simp add: countMined_def distinct_length_filter [OF distinct_allCells])
qed

lemma finite_mined: "finite {(r, c). hasMine d r c}"
proof (rule finite_subset)
  show "{(r, c). hasMine d r c} \<subseteq> set (allCells d)"
    by (auto simp: set_allCells dest: hasMine_inBounds)
qed simp

lemma length_allCells: "length (allCells d) = nat (rows (stats d)) * nat (cols (stats d))"
  by (simp add: allCells_def)

lemma countMined_le: "countMined d \<le> nat (rows (stats d)) * nat (cols (stats d))"
  unfolding countMined_def length_allCells [symmetric] by (rule length_filter_le)

lemma free_cell_exists:
  assumes "countMined d < nat (rows (stats d)) * nat (cols (stats d))"
  shows "\<exists>r c. inBounds d r c \<and> \<not> hasMine d r c"
proof (rule ccontr)
  assume "\<not> ?thesis"
  then have "filter (\<lambda>(r, c). hasMine d r c) (allCells d) = allCells d"
    by (auto simp: filter_id_conv set_allCells)
  then have "countMined d = length (allCells d)" by (simp add: countMined_def)
  with assms show False by (simp add: length_allCells)
qed

lemma pick_inBounds:
  assumes "unitValues random" and "rows (stats d) \<ge> 1" and "cols (stats d) \<ge> 1"
  shows "inBounds d (fst (pick random i (stats d))) (snd (pick random i (stats d)))"
proof -
  have *: "0 \<le> \<lfloor>u * of_int n\<rfloor> \<and> \<lfloor>u * of_int n\<rfloor> < n" if "0 \<le> u" "u < 1" "n \<ge> 1" for u :: rat and n :: int
  proof
    from that have "0 \<le> u * of_int n" by simp
    then show "0 \<le> \<lfloor>u * of_int n\<rfloor>" by simp
    from that have "u * of_int n < 1 * of_int n"
      by (intro mult_strict_right_mono) auto
    then show "\<lfloor>u * of_int n\<rfloor> < n" by (simp add: floor_less_iff)
  qed
  from assms show ?thesis
    by (auto simp: pick_def inBounds_def unitValues_def *)
qed


lemma gridOK_D:
  assumes "gridOK d"
  obtains g where "grid d = Some g" and "int (length g) = rows (stats d)"
    and "\<And>i. i < length g \<Longrightarrow> int (length (g ! i)) = cols (stats d)"
  using assms by (auto simp: gridOK_def list_all_length split: option.splits)

lemma plantMine_mined:
  assumes "gridOK d" and "hasMine d r c"
  shows "plantMine r c d = Inr (False, d)"
proof -
  from assms(1) obtain g where g: "grid d = Some g" "int (length g) = rows (stats d)"
    "\<And>i. i < length g \<Longrightarrow> int (length (g ! i)) = cols (stats d)"
    by (rule gridOK_D) blast
  from assms(2) have b: "0 \<le> r" "r < rows (stats d)" "0 \<le> c" "c < cols (stats d)"
    and m: "mined (g ! nat r ! nat c)"
    by (auto simp: hasMine_gridOK [OF assms(1)] inBounds_def g)
  from b g have "nat r < length g" by auto
  with g(3) [of "nat r"] b have "c < int (length (g ! nat r))" by simp
  with b g m show ?thesis by (simp add: plantMine_def gridAt_def)
qed

lemma plantMine_free:
  assumes "gridOK d" and "inBounds d r c" and "\<not> hasMine d r c"
  shows "\<exists>d'. plantMine r c d = Inr (True, d') \<and> gridOK d' \<and> stats d' = stats d \<and>
           tds d' = tds d \<and>
           {(r', c'). hasMine d' r' c'} = insert (r, c) {(r', c'). hasMine d r' c'}"
proof -
  from assms(1) obtain g where g: "grid d = Some g" "int (length g) = rows (stats d)"
    "\<And>i. i < length g \<Longrightarrow> int (length (g ! i)) = cols (stats d)"
    by (rule gridOK_D) blast
  from assms(2) have b: "0 \<le> r" "r < rows (stats d)" "0 \<le> c" "c < cols (stats d)"
    by (auto simp: inBounds_def)
  from b g have rlen: "nat r < length g" by auto
  with g(3) [of "nat r"] b have clen: "nat c < length (g ! nat r)" by simp
  from assms(2,3) have nm: "\<not> mined (g ! nat r ! nat c)"
    by (simp add: hasMine_gridOK [OF assms(1)] g)
  define g' where "g' = g[nat r := (g ! nat r)[nat c := (g ! nat r ! nat c)\<lparr>mined := True\<rparr>]]"
  define d' where "d' = d\<lparr>grid := Some g'\<rparr>"
  have plant: "plantMine r c d = Inr (True, d')"
    using b g rlen clen nm by (simp add: plantMine_def gridAt_def d'_def g'_def)
  have len': "length g' = length g" by (simp add: g'_def)
  have row': "length (g' ! i) = length (g ! i)" if "i < length g" for i
    using that by (cases "i = nat r") (simp_all add: g'_def)
  have ok': "gridOK d'"
    using g len' row' by (simp add: gridOK_def d'_def list_all_length)
  have cell': "mined (g' ! nat r' ! nat c') = (mined (g ! nat r' ! nat c') \<or> (r', c') = (r, c))"
    if "inBounds d r' c'" for r' c'
  proof -
    from that have b': "0 \<le> r'" "r' < rows (stats d)" "0 \<le> c'" "c' < cols (stats d)"
      by (auto simp: inBounds_def)
    with g have rlen': "nat r' < length g" by auto
    with g(3) [of "nat r'"] b' have clen': "nat c' < length (g ! nat r')" by simp
    show ?thesis
    proof (cases "r' = r")
      case False
      with b b' have "nat r' \<noteq> nat r" by auto
      with False show ?thesis by (simp add: g'_def)
    next
      case True
      show ?thesis
      proof (cases "c' = c")
        case False
        with b b' have "nat c' \<noteq> nat c" by auto
        with False True rlen show ?thesis by (simp add: g'_def)
      next
        case c: True
        with True rlen clen show ?thesis by (simp add: g'_def)
      qed
    qed
  qed
  have inb: "inBounds d' r' c' = inBounds d r' c'" for r' c'
    by (simp add: inBounds_def d'_def)
  have "hasMine d' r' c' = (hasMine d r' c' \<or> (r', c') = (r, c))" for r' c'
    using cell' [of r' c'] assms(2)
    by (auto simp: hasMine_gridOK [OF assms(1)] hasMine_gridOK [OF ok'] inb g) (auto simp: d'_def)
  then have "{(r', c'). hasMine d' r' c'} = insert (r, c) {(r', c'). hasMine d r' c'}"
    by auto
  with plant ok' show ?thesis by (auto simp: d'_def)
qed

lemma countMined_plantMine_free:
  assumes "{(r', c'). hasMine d' r' c'} = insert (r, c) {(r', c'). hasMine d r' c'}"
    and "\<not> hasMine d r c"
  shows "countMined d' = Suc (countMined d)"
  using assms by (simp add: countMined_card finite_mined)


lemma fair_shift: "fair random i st \<Longrightarrow> fair random (i + 2) st"
proof (unfold fair_def, intro allI impI)
  fix r c n
  assume f: "\<forall>r c n. 0 \<le> r \<and> r < rows st \<and> 0 \<le> c \<and> c < cols st \<longrightarrow>
        (\<exists>k\<ge>n. pick random (i + 2 * k) st = (r, c))"
    and b: "0 \<le> r \<and> r < rows st \<and> 0 \<le> c \<and> c < cols st"
  from f b obtain k where k: "k \<ge> Suc n" "pick random (i + 2 * k) st = (r, c)" by blast
  then obtain k' where k': "k = Suc k'" by (cases k) auto
  with k have "k' \<ge> n" "pick random (i + 2 + 2 * k') st = (r, c)" by simp_all
  then show "\<exists>k\<ge>n. pick random (i + 2 + 2 * k) st = (r, c)" by blast
qed

lemma plantAllMines_done:
  "\<not> lessThanNum (minesPlanted (stats d)) (toNumber T (mines (stats d))) \<Longrightarrow>
   plantAllMines T random i d = Some (Inr d)"
  by (subst plantAllMines.simps) simp

lemma plantAllMines_retry:
  assumes "gridOK d" and "hasMine d (fst (pick random i (stats d))) (snd (pick random i (stats d)))"
    and "lessThanNum (minesPlanted (stats d)) (toNumber T (mines (stats d)))"
  shows "plantAllMines T random i d = plantAllMines T random (i + 2) d"
proof -
  have "plantMine \<lfloor>random i * of_int (rows (stats d))\<rfloor>
          \<lfloor>random (i + 1) * of_int (cols (stats d))\<rfloor> d = Inr (False, d)"
    using plantMine_mined [OF assms(1,2)] by (simp add: pick_def)
  with assms(3) show ?thesis
    by (subst plantAllMines.simps) simp
qed

lemma plantAllMines_plant:
  assumes "plantMine (fst (pick random i (stats d))) (snd (pick random i (stats d))) d = Inr (True, d')"
    and "lessThanNum (minesPlanted (stats d)) (toNumber T (mines (stats d)))"
  shows "plantAllMines T random i d =
           plantAllMines T random (i + 2)
             (d'\<lparr>stats := (stats d')\<lparr>minesPlanted := minesPlanted (stats d') + 1\<rparr>\<rparr>)"
  using assms by (subst plantAllMines.simps) (simp add: pick_def)

text \<open>One more mine: from a turn whose cell is free, the loop goes on with one more mine.\<close>

lemma planted_step:
  assumes p: "planted d" and u: "unitValues random"
    and free: "\<not> hasMine d (fst (pick random i (stats d))) (snd (pick random i (stats d)))"
    and guard: "lessThanNum (minesPlanted (stats d)) (toNumber T (mines (stats d)))"
  shows "\<exists>d'. plantAllMines T random i d = plantAllMines T random (i + 2) d' \<and> planted d' \<and>
           stats d' = (stats d)\<lparr>minesPlanted := minesPlanted (stats d) + 1\<rparr> \<and>
           tds d' = tds d \<and> active d' = active d \<and> gameresult d' = gameresult d \<and>
           modal d' = modal d \<and>
           {(r, c). hasMine d r c} \<subseteq> {(r, c). hasMine d' r c}"
proof -
  let ?r = "fst (pick random i (stats d))" and ?c = "snd (pick random i (stats d))"
  from p have ok: "gridOK d" and sz: "1 \<le> rows (stats d)" "1 \<le> cols (stats d)"
    and mp: "minesPlanted (stats d) = int (countMined d)"
    by (simp_all add: planted_def)
  have inb: "inBounds d ?r ?c" using u sz by (rule pick_inBounds)
  from plantMine_free [OF ok inb free] obtain d1 where d1:
    "plantMine ?r ?c d = Inr (True, d1)" "gridOK d1" "stats d1 = stats d" "tds d1 = tds d"
    "{(r', c'). hasMine d1 r' c'} = insert (?r, ?c) {(r', c'). hasMine d r' c'}"
    by blast
  have rest: "active d1 = active d \<and> gameresult d1 = gameresult d \<and> modal d1 = modal d"
    using d1(1) by (auto simp: plantMine_def split: sum.splits option.splits if_splits)
  define d' where "d' = d1\<lparr>stats := (stats d1)\<lparr>minesPlanted := minesPlanted (stats d1) + 1\<rparr>\<rparr>"
  have hm: "hasMine d' r c = hasMine d1 r c" for r c
    by (simp add: hasMine_def getCell_def d'_def)
  have s': "{(r, c). hasMine d' r c} = insert (?r, ?c) {(r', c'). hasMine d r' c'}"
    using d1(5) by (simp add: hm)
  have "(?r, ?c) \<notin> {(r', c'). hasMine d r' c'}" using free by (simp add: case_prod_unfold)
  then have cm: "countMined d' = Suc (countMined d)"
    unfolding countMined_card s' by (rule card_insert_disjoint [OF finite_mined])
  have "gridOK d'" using d1(2) by (simp add: gridOK_def d'_def split: option.splits)
  with sz mp cm d1(3) have "planted d'" by (simp add: planted_def d'_def)
  moreover have "plantAllMines T random i d = plantAllMines T random (i + 2) d'"
    unfolding d'_def using d1(1) guard by (rule plantAllMines_plant)
  moreover have "{(r, c). hasMine d r c} \<subseteq> {(r, c). hasMine d' r c}"
    using d1(5) by (auto simp: hm)
  ultimately show ?thesis using d1(3,4) rest by (auto simp: d'_def)
qed

lemma plantAllMines_returns:
  assumes u: "unitValues random"
  shows "planted d \<Longrightarrow> toNumber T (mines (stats d)) = Finite (of_int m) \<Longrightarrow>
         minesPlanted (stats d) \<le> m \<Longrightarrow> m \<le> rows (stats d) * cols (stats d) \<Longrightarrow>
         nat (m - minesPlanted (stats d)) = n \<Longrightarrow> fair random i (stats d) \<Longrightarrow>
         \<exists>d'. plantAllMines T random i d = Some (Inr d') \<and> planted d' \<and>
              stats d' = (stats d)\<lparr>minesPlanted := m\<rparr> \<and>
              tds d' = tds d \<and> active d' = active d \<and> gameresult d' = gameresult d \<and>
              modal d' = modal d \<and>
              {(r, c). hasMine d r c} \<subseteq> {(r, c). hasMine d' r c}"
proof (induction n arbitrary: d i)
  case 0
  then have "minesPlanted (stats d) = m" by simp
  with 0 have "plantAllMines T random i d = Some (Inr d)"
    by (intro plantAllMines_done) simp
  moreover have "(stats d)\<lparr>minesPlanted := m\<rparr> = stats d"
    using \<open>minesPlanted (stats d) = m\<close> by simp
  ultimately show ?case using 0 by auto
next
  case (Suc n)
  let ?goal = "\<lambda>i d. \<exists>d'. plantAllMines T random i d = Some (Inr d') \<and> planted d' \<and>
              stats d' = (stats d)\<lparr>minesPlanted := m\<rparr> \<and>
              tds d' = tds d \<and> active d' = active d \<and> gameresult d' = gameresult d \<and>
              modal d' = modal d \<and>
              {(r, c). hasMine d r c} \<subseteq> {(r, c). hasMine d' r c}"
  from Suc.prems have less: "minesPlanted (stats d) < m" by simp
  with Suc.prems have guard: "lessThanNum (minesPlanted (stats d)) (toNumber T (mines (stats d)))"
    by simp
  from Suc.prems have ok: "gridOK d" and sz: "1 \<le> rows (stats d)" "1 \<le> cols (stats d)"
    and mp: "minesPlanted (stats d) = int (countMined d)"
    by (simp_all add: planted_def)
  have "int (countMined d) < rows (stats d) * cols (stats d)"
    using less mp Suc.prems(4) by simp
  then have "countMined d < nat (rows (stats d)) * nat (cols (stats d))"
    using sz by (simp add: nat_mult_distrib zless_nat_eq_int_zless [symmetric] del: zless_nat_conj)
  then obtain r0 c0 where free0: "inBounds d r0 c0" "\<not> hasMine d r0 c0"
    using free_cell_exists by blast
  with Suc.prems(6) obtain k where "pick random (i + 2 * k) (stats d) = (r0, c0)"
    unfolding fair_def inBounds_def by blast
  with free0 have "\<not> hasMine d (fst (pick random (i + 2 * k) (stats d)))
                       (snd (pick random (i + 2 * k) (stats d)))"
    by simp
  then show ?case using Suc.prems(6)
  proof (induction k arbitrary: i)
    case 0
    then have free: "\<not> hasMine d (fst (pick random i (stats d))) (snd (pick random i (stats d)))"
      by simp
    from planted_step [OF Suc.prems(1) u free guard] obtain d1 where d1:
      "plantAllMines T random i d = plantAllMines T random (i + 2) d1" "planted d1"
      "stats d1 = (stats d)\<lparr>minesPlanted := minesPlanted (stats d) + 1\<rparr>"
      "tds d1 = tds d" "active d1 = active d" "gameresult d1 = gameresult d" "modal d1 = modal d"
      "{(r, c). hasMine d r c} \<subseteq> {(r, c). hasMine d1 r c}"
      by blast
    have "?goal (i + 2) d1"
    proof (rule Suc.IH)
      show "planted d1" by fact
      show "toNumber T (mines (stats d1)) = Finite (of_int m)"
        using Suc.prems(2) d1(3) by simp
      show "minesPlanted (stats d1) \<le> m" using less d1(3) by simp
      show "m \<le> rows (stats d1) * cols (stats d1)" using Suc.prems(4) d1(3) by simp
      show "nat (m - minesPlanted (stats d1)) = n" using Suc.prems(5) d1(3) by simp
      have "fair random (i + 2) (stats d)" using "0.prems"(2) by (rule fair_shift)
      then show "fair random (i + 2) (stats d1)"
        by (simp add: fair_def pick_def d1(3))
    qed
    then show ?case using d1 by auto
  next
    case (Suc k)
    show ?case
    proof (cases "hasMine d (fst (pick random i (stats d))) (snd (pick random i (stats d)))")
      case True
      have eq: "plantAllMines T random i d = plantAllMines T random (i + 2) d"
        using ok True guard by (rule plantAllMines_retry)
      have "?goal (i + 2) d"
      proof (rule Suc.IH)
        show "\<not> hasMine d (fst (pick random (i + 2 + 2 * k) (stats d)))
                  (snd (pick random (i + 2 + 2 * k) (stats d)))"
          using Suc.prems(1) by (simp add: add.assoc)
        show "fair random (i + 2) (stats d)" using Suc.prems(2) by (rule fair_shift)
      qed
      then show ?thesis unfolding eq .
    next
      case False
      from planted_step [OF \<open>planted d\<close> u False guard] obtain d1 where d1:
        "plantAllMines T random i d = plantAllMines T random (i + 2) d1" "planted d1"
        "stats d1 = (stats d)\<lparr>minesPlanted := minesPlanted (stats d) + 1\<rparr>"
        "tds d1 = tds d" "active d1 = active d" "gameresult d1 = gameresult d" "modal d1 = modal d"
        "{(r, c). hasMine d r c} \<subseteq> {(r, c). hasMine d1 r c}"
        by blast
      have "?goal (i + 2) d1"
      proof (rule \<open>\<And>i d. \<lbrakk>planted d; toNumber T (mines (stats d)) = Finite (of_int m);
          minesPlanted (stats d) \<le> m; m \<le> rows (stats d) * cols (stats d);
          nat (m - minesPlanted (stats d)) = n; fair random i (stats d)\<rbrakk> \<Longrightarrow> ?goal i d\<close>)
        show "planted d1" by fact
        show "toNumber T (mines (stats d1)) = Finite (of_int m)"
          using \<open>toNumber T (mines (stats d)) = Finite (of_int m)\<close> d1(3) by simp
        show "minesPlanted (stats d1) \<le> m" using less d1(3) by simp
        show "m \<le> rows (stats d1) * cols (stats d1)"
          using \<open>m \<le> rows (stats d) * cols (stats d)\<close> d1(3) by simp
        show "nat (m - minesPlanted (stats d1)) = n"
          using \<open>nat (m - minesPlanted (stats d)) = Suc n\<close> d1(3) by simp
        have "fair random (i + 2) (stats d)" using Suc.prems(2) by (rule fair_shift)
        then show "fair random (i + 2) (stats d1)"
          by (simp add: fair_def pick_def d1(3))
      qed
      then show ?thesis using d1 by auto
    qed
  qed
qed


lemma planted_plant:
  assumes p: "planted d" and u: "unitValues random"
    and free: "\<not> hasMine d (fst (pick random i (stats d))) (snd (pick random i (stats d)))"
  shows "\<exists>d1. plantMine (fst (pick random i (stats d))) (snd (pick random i (stats d))) d = Inr (True, d1) \<and>
           planted (d1\<lparr>stats := (stats d1)\<lparr>minesPlanted := minesPlanted (stats d1) + 1\<rparr>\<rparr>) \<and>
           stats d1 = stats d \<and> tds d1 = tds d \<and> active d1 = active d \<and>
           gameresult d1 = gameresult d \<and> modal d1 = modal d \<and>
           {(r, c). hasMine d r c} \<subseteq> {(r, c). hasMine d1 r c}"
proof -
  let ?r = "fst (pick random i (stats d))" and ?c = "snd (pick random i (stats d))"
  from p have ok: "gridOK d" and sz: "1 \<le> rows (stats d)" "1 \<le> cols (stats d)"
    and mp: "minesPlanted (stats d) = int (countMined d)"
    by (simp_all add: planted_def)
  have inb: "inBounds d ?r ?c" using u sz by (rule pick_inBounds)
  from plantMine_free [OF ok inb free] obtain d1 where d1:
    "plantMine ?r ?c d = Inr (True, d1)" "gridOK d1" "stats d1 = stats d" "tds d1 = tds d"
    "{(r', c'). hasMine d1 r' c'} = insert (?r, ?c) {(r', c'). hasMine d r' c'}"
    by blast
  have rest: "active d1 = active d \<and> gameresult d1 = gameresult d \<and> modal d1 = modal d"
    using d1(1) by (auto simp: plantMine_def split: sum.splits option.splits if_splits)
  define d' where "d' = d1\<lparr>stats := (stats d1)\<lparr>minesPlanted := minesPlanted (stats d1) + 1\<rparr>\<rparr>"
  have hm: "hasMine d' r c = hasMine d1 r c" for r c
    by (simp add: hasMine_def getCell_def d'_def)
  have s': "{(r, c). hasMine d' r c} = insert (?r, ?c) {(r', c'). hasMine d r' c'}"
    using d1(5) by (simp add: hm)
  have "(?r, ?c) \<notin> {(r', c'). hasMine d r' c'}" using free by (simp add: case_prod_unfold)
  then have cm: "countMined d' = Suc (countMined d)"
    unfolding countMined_card s' by (rule card_insert_disjoint [OF finite_mined])
  have "gridOK d'" using d1(2) by (simp add: gridOK_def d'_def split: option.splits)
  with sz mp cm d1(3) have "planted d'" by (simp add: planted_def d'_def)
  moreover have "{(r, c). hasMine d r c} \<subseteq> {(r, c). hasMine d1 r c}"
    using d1(5) by auto
  ultimately show ?thesis using d1(1,3,4) rest unfolding d'_def by blast
qed

text \<open>Whatever the loop returns, from a grid whose counter is right.\<close>

lemma plantAllMines_result:
  assumes ret: "plantAllMines T random i d = Some y" and u: "unitValues random" and p: "planted d"
  shows "\<exists>d'. y = Inr d' \<and> planted d' \<and>
           stats d' = (stats d)\<lparr>minesPlanted := minesPlanted (stats d')\<rparr> \<and>
           tds d' = tds d \<and> active d' = active d \<and> gameresult d' = gameresult d \<and>
           modal d' = modal d \<and>
           \<not> lessThanNum (minesPlanted (stats d')) (toNumber T (mines (stats d))) \<and>
           (minesPlanted (stats d') = minesPlanted (stats d) \<or>
            lessThanNum (minesPlanted (stats d') - 1) (toNumber T (mines (stats d)))) \<and>
           {(r, c). hasMine d r c} \<subseteq> {(r, c). hasMine d' r c}"
proof -
  let ?Q = "\<lambda>T d y. \<exists>d'. y = Inr d' \<and> planted d' \<and>
           stats d' = (stats d)\<lparr>minesPlanted := minesPlanted (stats d')\<rparr> \<and>
           tds d' = tds d \<and> active d' = active d \<and> gameresult d' = gameresult d \<and>
           modal d' = modal d \<and>
           \<not> lessThanNum (minesPlanted (stats d')) (toNumber T (mines (stats d))) \<and>
           (minesPlanted (stats d') = minesPlanted (stats d) \<or>
            lessThanNum (minesPlanted (stats d') - 1) (toNumber T (mines (stats d)))) \<and>
           {(r, c). hasMine d r c} \<subseteq> {(r, c). hasMine d' r c}"
  have "unitValues random \<longrightarrow> planted d \<longrightarrow> ?Q T d y"
    apply (rule plantAllMines.raw_induct
        [where P = "\<lambda>T random i d y. unitValues random \<longrightarrow> planted d \<longrightarrow> ?Q T d y", OF _ ret])
    subgoal premises prems for f T random i d y
    proof (intro impI)
      assume u: "unitValues random" and p: "planted d"
      let ?r = "fst (pick random i (stats d))" and ?c = "snd (pick random i (stats d))"
      from p have ok: "gridOK d" by (simp add: planted_def)
      show "?Q T d y"
      proof (cases "lessThanNum (minesPlanted (stats d)) (toNumber T (mines (stats d)))")
        case False
        with prems(2) have "y = Inr d" by simp
        with False p show ?thesis by auto
      next
        case guard: True
        show ?thesis
        proof (cases "hasMine d ?r ?c")
          case True
          have "plantMine \<lfloor>random i * of_int (rows (stats d))\<rfloor>
                  \<lfloor>random (i + 1) * of_int (cols (stats d))\<rfloor> d = Inr (False, d)"
            using plantMine_mined [OF ok True] by (simp add: pick_def)
          with prems(2) guard have "f T random (i + 2) d = Some y" by simp
          from prems(1) [OF this] u p show ?thesis by blast
        next
          case False
          from planted_plant [OF p u False] obtain d1 where d1:
            "plantMine ?r ?c d = Inr (True, d1)"
            "planted (d1\<lparr>stats := (stats d1)\<lparr>minesPlanted := minesPlanted (stats d1) + 1\<rparr>\<rparr>)"
            "stats d1 = stats d" "tds d1 = tds d" "active d1 = active d"
            "gameresult d1 = gameresult d" "modal d1 = modal d"
            "{(r, c). hasMine d r c} \<subseteq> {(r, c). hasMine d1 r c}"
            by blast
          define d2 where "d2 = d1\<lparr>stats := (stats d1)\<lparr>minesPlanted := minesPlanted (stats d1) + 1\<rparr>\<rparr>"
          from d1(1) prems(2) guard have "f T random (i + 2) d2 = Some y"
            by (simp add: pick_def d2_def)
          from prems(1) [OF this] u d1(2) obtain d' where d':
            "y = Inr d'" "planted d'"
            "stats d' = (stats d2)\<lparr>minesPlanted := minesPlanted (stats d')\<rparr>"
            "tds d' = tds d2" "active d' = active d2" "gameresult d' = gameresult d2"
            "modal d' = modal d2"
            "\<not> lessThanNum (minesPlanted (stats d')) (toNumber T (mines (stats d2)))"
            "minesPlanted (stats d') = minesPlanted (stats d2) \<or>
               lessThanNum (minesPlanted (stats d') - 1) (toNumber T (mines (stats d2)))"
            "{(r, c). hasMine d2 r c} \<subseteq> {(r, c). hasMine d' r c}"
            unfolding d2_def [symmetric] by blast
          have hm: "hasMine d2 r c = hasMine d1 r c" for r c
            by (simp add: hasMine_def getCell_def d2_def)
          have st2: "stats d2 = (stats d)\<lparr>minesPlanted := minesPlanted (stats d) + 1\<rparr>"
            by (simp add: d2_def d1(3))
          have "stats d' = (stats d)\<lparr>minesPlanted := minesPlanted (stats d')\<rparr>"
            using d'(3) by (simp add: st2)
          moreover have "\<not> lessThanNum (minesPlanted (stats d')) (toNumber T (mines (stats d)))"
            using d'(8) by (simp add: st2)
          moreover have "minesPlanted (stats d') = minesPlanted (stats d) \<or>
               lessThanNum (minesPlanted (stats d') - 1) (toNumber T (mines (stats d)))"
            using d'(9) guard by (auto simp: st2)
          moreover have "{(r, c). hasMine d r c} \<subseteq> {(r, c). hasMine d' r c}"
            using d1(8) d'(10) by (auto simp: hm)
          moreover have "tds d' = tds d" "active d' = active d" "gameresult d' = gameresult d"
            "modal d' = modal d"
            using d'(4-7) d1(4-7) by (simp_all add: d2_def)
          ultimately show ?thesis using d'(1,2) by blast
        qed
      qed
    qed
    done
  with u p show ?thesis by blast
qed

lemma plantAllMines_diverges:
  assumes u: "unitValues random" and p: "planted d"
    and m: "toNumber T (mines (stats d)) = Finite (of_int m)"
    and big: "rows (stats d) * cols (stats d) < m"
  shows "plantAllMines T random i d = None"
proof (rule ccontr)
  assume "plantAllMines T random i d \<noteq> None"
  then obtain y where "plantAllMines T random i d = Some y" by auto
  from plantAllMines_result [OF this u p] obtain d' where d': "planted d'"
    "stats d' = (stats d)\<lparr>minesPlanted := minesPlanted (stats d')\<rparr>"
    "\<not> lessThanNum (minesPlanted (stats d')) (toNumber T (mines (stats d)))"
    by blast
  from d'(2) have sz: "rows (stats d') = rows (stats d)" "cols (stats d') = cols (stats d)"
    by (metis stats.select_convs(5) stats.surjective stats.update_convs(4),
        metis stats.select_convs(2) stats.surjective stats.update_convs(4))
  from d'(1) have "minesPlanted (stats d') = int (countMined d')"
    and "1 \<le> rows (stats d')" "1 \<le> cols (stats d')" by (simp_all add: planted_def)
  moreover have "int (countMined d') \<le> int (nat (rows (stats d')) * nat (cols (stats d')))"
    using countMined_le [of d'] by (simp only: of_nat_le_iff)
  ultimately have "minesPlanted (stats d') \<le> rows (stats d) * cols (stats d)"
    by (simp add: sz)
  with big have "minesPlanted (stats d') < m" by simp
  with d'(3) m show False by simp
qed


lemma mineFree_planted:
  "mineFree d \<Longrightarrow> 1 \<le> rows (stats d) \<Longrightarrow> 1 \<le> cols (stats d) \<Longrightarrow> planted d"
  by (simp add: mineFree_def planted_def)

lemma stats_minesPlanted_update_D:
  "st' = st\<lparr>minesPlanted := k\<rparr> \<Longrightarrow> rows st' = rows st \<and> cols st' = cols st \<and> mines st' = mines st"
  by simp

lemma mineFree_freshGame:
  assumes "0 \<le> rs" and "0 \<le> cs"
  shows "mineFree (freshGame rs cs m)"
proof -
  have ok: "gridOK (freshGame rs cs m)"
    using assms by (simp add: gridOK_def freshGame_def list_all_iff)
  have "\<not> hasMine (freshGame rs cs m) r c" for r c
    unfolding hasMine_gridOK [OF ok] by (auto simp: inBounds_def freshGame_def)
  then have "countMined (freshGame rs cs m) = 0"
    by (simp add: countMined_def)
  with ok show ?thesis by (simp add: mineFree_def freshGame_def)
qed

lemma generateGrid_freshGame:
  assumes "minesPlanted (stats d) = 0"
  shows "generateGrid T k inp d =
     (let g = generateGrid T k inp d in
      d\<lparr>stats := stats g, grid := grid (freshGame (rows (stats g)) (cols (stats g)) (mines (stats g)))\<rparr>)"
  by (simp add: generateGrid_def freshGame_def Let_def)

text \<open>
  C3. On a freshly generated, mine-free grid of at least one row and one column, with a
  mine count \<open>0 \<le> mineCount < rows \<times> cols\<close> and random values in \<open>[0, 1)\<close>:
  \<open>plantAllMines\<close> returns when the random sequence is fair; whenever it returns,
  exactly \<open>mineCount\<close> cells are mined and the grid still has \<open>rows\<close> rows of \<open>cols\<close>
  cells; and no cell is planted twice: \<open>plantMine\<close> on a mined cell returns \<open>false\<close>
  and changes nothing, and the loop then goes to its next turn with the same game.
\<close>

theorem plantAllMines_plants_mineCount:
  assumes fresh: "mineFree d" and size: "1 \<le> rows (stats d)" "1 \<le> cols (stats d)"
    and count: "toNumber ToNumber (mines (stats d)) = Finite (of_int mineCount)"
      "0 \<le> mineCount" "mineCount < rows (stats d) * cols (stats d)"
    and rnd: "unitValues random"
  shows "(fair random i (stats d) \<longrightarrow> (\<exists>d'. plantAllMines ToNumber random i d = Some (Inr d'))) \<and>
         (\<forall>res. plantAllMines ToNumber random i d = Some res \<longrightarrow>
            (\<exists>d'. res = Inr d' \<and> countMined d' = nat mineCount \<and> gridOK d' \<and>
                  rows (stats d') = rows (stats d) \<and> cols (stats d') = cols (stats d))) \<and>
         (\<forall>r c d0. gridOK d0 \<and> hasMine d0 r c \<longrightarrow> plantMine r c d0 = Inr (False, d0)) \<and>
         (\<forall>j d0. gridOK d0 \<and>
                 hasMine d0 (fst (pick random j (stats d0))) (snd (pick random j (stats d0))) \<and>
                 lessThanNum (minesPlanted (stats d0)) (toNumber ToNumber (mines (stats d0))) \<longrightarrow>
                 plantAllMines ToNumber random j d0 = plantAllMines ToNumber random (j + 2) d0)"
proof (intro conjI allI impI)
  have p: "planted d" using fresh size by (rule mineFree_planted)
  have mp: "minesPlanted (stats d) = 0" using fresh by (simp add: mineFree_def)
  show "\<exists>d'. plantAllMines ToNumber random i d = Some (Inr d')" if "fair random i (stats d)"
    using plantAllMines_returns [OF rnd p count(1) _ _ refl that] count(2,3) mp by auto
  show "\<exists>d'. res = Inr d' \<and> countMined d' = nat mineCount \<and> gridOK d' \<and>
             rows (stats d') = rows (stats d) \<and> cols (stats d') = cols (stats d)"
    if "plantAllMines ToNumber random i d = Some res" for res
  proof -
    from plantAllMines_result [OF that rnd p] obtain d' where d': "res = Inr d'" "planted d'"
      "stats d' = (stats d)\<lparr>minesPlanted := minesPlanted (stats d')\<rparr>"
      "\<not> lessThanNum (minesPlanted (stats d')) (toNumber ToNumber (mines (stats d)))"
      "minesPlanted (stats d') = minesPlanted (stats d) \<or>
         lessThanNum (minesPlanted (stats d') - 1) (toNumber ToNumber (mines (stats d)))"
      by blast
    from d'(4,5) have "minesPlanted (stats d') = mineCount"
      using count(1,2) mp by auto
    with d'(2) have "countMined d' = nat mineCount" "gridOK d'" by (auto simp: planted_def)
    with d'(1) stats_minesPlanted_update_D [OF d'(3)] show ?thesis by simp
  qed
next
  fix r c d0 assume "gridOK d0 \<and> hasMine d0 r c"
  then show "plantMine r c d0 = Inr (False, d0)" by (simp add: plantMine_mined)
next
  fix j d0
  assume "gridOK d0 \<and>
                 hasMine d0 (fst (pick random j (stats d0))) (snd (pick random j (stats d0))) \<and>
                 lessThanNum (minesPlanted (stats d0)) (toNumber ToNumber (mines (stats d0)))"
  then show "plantAllMines ToNumber random j d0 = plantAllMines ToNumber random (j + 2) d0"
    by (simp add: plantAllMines_retry)
qed

lemma unitValues_alternate: "unitValues alternate"
  by (simp add: unitValues_def alternate_def)

lemma fair_alternate: "fair alternate 0 (stats (freshGame 1 2 m))"
proof (unfold fair_def, intro allI impI)
  fix r c :: int and n :: nat
  assume "0 \<le> r \<and> r < rows (stats (freshGame 1 2 m)) \<and> 0 \<le> c \<and> c < cols (stats (freshGame 1 2 m))"
  then have r: "r = 0" and c: "c = 0 \<or> c = 1" by (auto simp: freshGame_def)
  have m1: "(4 * n + 1) mod 4 = 1" "(4 * n) mod 4 = 0" "(4 * n + 2) mod 4 = 2" "(4 * n + 3) mod 4 = 3"
    by presburger+
  from c show "\<exists>k\<ge>n. pick alternate (0 + 2 * k) (stats (freshGame 1 2 m)) = (r, c)"
  proof
    assume "c = 0"
    then have "pick alternate (0 + 2 * (2 * n)) (stats (freshGame 1 2 m)) = (r, c)"
      using m1 by (simp add: pick_def alternate_def freshGame_def r)
    then show ?thesis by (intro exI [of _ "2 * n"]) simp
  next
    assume "c = 1"
    then have "pick alternate (0 + 2 * (2 * n + 1)) (stats (freshGame 1 2 m)) = (r, c)"
      using m1 by (simp add: pick_def alternate_def freshGame_def r)
    then show ?thesis by (intro exI [of _ "2 * n + 1"]) simp
  qed
qed

theorem plantAllMines_plants_mineCount_witness:
  "\<exists>d'. plantAllMines (\<lambda>s. NaN) alternate 0 (freshGame 1 2 (JNumber (Finite 1))) = Some (Inr d') \<and>
        countMined d' = 1 \<and> rows (stats d') = 1 \<and> cols (stats d') = 2"
proof -
  let ?d = "freshGame 1 2 (JNumber (Finite 1))"
  have fresh: "mineFree ?d" by (rule mineFree_freshGame) simp_all
  have size: "1 \<le> rows (stats ?d)" "1 \<le> cols (stats ?d)" by (simp_all add: freshGame_def)
  have count: "toNumber (\<lambda>s. NaN) (mines (stats ?d)) = Finite (of_int 1)" "(0::int) \<le> 1"
    "1 < rows (stats ?d) * cols (stats ?d)"
    by (simp_all add: freshGame_def)
  note inst = plantAllMines_plants_mineCount [OF fresh size count unitValues_alternate, of 0]
  from inst fair_alternate obtain d' where
    ret: "plantAllMines (\<lambda>s. NaN) alternate 0 ?d = Some (Inr d')" by blast
  with inst have "countMined d' = nat 1 \<and> rows (stats d') = rows (stats ?d) \<and> cols (stats d') = cols (stats ?d)"
    by blast
  with ret show ?thesis by (simp add: freshGame_def)
qed

text \<open>
  C7, as amended.  On a freshly generated grid of at least one row and one column and
  with random values in \<open>[0, 1)\<close>: \<open>plantAllMines\<close> returns for every mine count up to
  and including \<open>rows \<times> cols\<close> when the random sequence is fair, and never returns for a
  mine count above \<open>rows \<times> cols\<close>, whatever the random values.
\<close>

theorem plantAllMines_terminates_iff:
  assumes fresh: "mineFree d" and size: "1 \<le> rows (stats d)" "1 \<le> cols (stats d)"
    and count: "toNumber ToNumber (mines (stats d)) = Finite (of_int mineCount)"
    and rnd: "unitValues random"
  shows "(mineCount \<le> rows (stats d) * cols (stats d) \<and> fair random i (stats d) \<longrightarrow>
            (\<exists>d'. plantAllMines ToNumber random i d = Some (Inr d'))) \<and>
         (mineCount > rows (stats d) * cols (stats d) \<longrightarrow>
            plantAllMines ToNumber random i d = None)"
proof (intro conjI impI)
  have p: "planted d" using fresh size by (rule mineFree_planted)
  have mp: "minesPlanted (stats d) = 0" using fresh by (simp add: mineFree_def)
  show "\<exists>d'. plantAllMines ToNumber random i d = Some (Inr d')"
    if "mineCount \<le> rows (stats d) * cols (stats d) \<and> fair random i (stats d)"
  proof (cases "0 \<le> mineCount")
    case True
    with plantAllMines_returns [OF rnd p count _ _ refl, of i] that mp show ?thesis by auto
  next
    case False
    then have "plantAllMines ToNumber random i d = Some (Inr d)"
      using count mp by (intro plantAllMines_done) simp
    then show ?thesis by blast
  qed
  show "plantAllMines ToNumber random i d = None" if "mineCount > rows (stats d) * cols (stats d)"
    using rnd p count that by (rule plantAllMines_diverges)
qed

theorem plantAllMines_terminates_iff_witness:
  "(\<exists>d'. plantAllMines (\<lambda>s. NaN) alternate 0 (freshGame 1 2 (JNumber (Finite 2))) = Some (Inr d')) \<and>
   plantAllMines (\<lambda>s. NaN) alternate 0 (freshGame 1 2 (JNumber (Finite 3))) = None"
proof -
  have fresh: "mineFree (freshGame 1 2 m)" for m by (rule mineFree_freshGame) simp_all
  have size: "1 \<le> rows (stats (freshGame 1 2 m))" "1 \<le> cols (stats (freshGame 1 2 m))" for m
    by (simp_all add: freshGame_def)
  have c2: "toNumber (\<lambda>s. NaN) (mines (stats (freshGame 1 2 (JNumber (Finite 2))))) = Finite (of_int 2)"
    and c3: "toNumber (\<lambda>s. NaN) (mines (stats (freshGame 1 2 (JNumber (Finite 3))))) = Finite (of_int 3)"
    by (simp_all add: freshGame_def)
  have le: "(2::int) \<le> rows (stats (freshGame 1 2 (JNumber (Finite 2)))) * cols (stats (freshGame 1 2 (JNumber (Finite 2))))"
    and gt: "(3::int) > rows (stats (freshGame 1 2 (JNumber (Finite 3)))) * cols (stats (freshGame 1 2 (JNumber (Finite 3))))"
    by (simp_all add: freshGame_def)
  from plantAllMines_terminates_iff [OF fresh size c2 unitValues_alternate, of 0] le fair_alternate
  have "\<exists>d'. plantAllMines (\<lambda>s. NaN) alternate 0 (freshGame 1 2 (JNumber (Finite 2))) = Some (Inr d')"
    by blast
  moreover from plantAllMines_terminates_iff [OF fresh size c3 unitValues_alternate, of 0] gt
  have "plantAllMines (\<lambda>s. NaN) alternate 0 (freshGame 1 2 (JNumber (Finite 3))) = None"
    by blast
  ultimately show ?thesis by blast
qed

text \<open>
  C7 as stated fails for \<open>mineCount = rows \<times> cols\<close>: on the board of one cell with a
  mine count of 1 the loop plants the mine in its first turn and returns.
\<close>

theorem plantAllMines_full_board_returns:
  "mineFree (freshGame 1 1 (JNumber (Finite 1))) \<and>
   rows (stats (freshGame 1 1 (JNumber (Finite 1)))) * cols (stats (freshGame 1 1 (JNumber (Finite 1)))) = 1 \<and>
   toNumber (\<lambda>s. NaN) (mines (stats (freshGame 1 1 (JNumber (Finite 1))))) = Finite 1 \<and>
   plantAllMines (\<lambda>s. NaN) (\<lambda>i. 0) 0 (freshGame 1 1 (JNumber (Finite 1))) =
     Some (Inr ((freshGame 1 1 (JNumber (Finite 1)))
       \<lparr>grid := Some [[\<lparr>mined = True\<rparr>]],
        stats := (stats (freshGame 1 1 (JNumber (Finite 1))))\<lparr>minesPlanted := 1\<rparr>\<rparr>))"
proof -
  have "mineFree (freshGame 1 1 (JNumber (Finite 1)))" by (rule mineFree_freshGame) simp_all
  moreover have "plantAllMines (\<lambda>s. NaN) (\<lambda>i. 0) 0 (freshGame 1 1 (JNumber (Finite 1))) =
     Some (Inr ((freshGame 1 1 (JNumber (Finite 1)))
       \<lparr>grid := Some [[\<lparr>mined = True\<rparr>]],
        stats := (stats (freshGame 1 1 (JNumber (Finite 1))))\<lparr>minesPlanted := 1\<rparr>\<rparr>))"
    apply (subst plantAllMines.simps)
    apply (simp add: freshGame_def plantMine_def gridAt_def)
    apply (subst plantAllMines.simps)
    apply simp
    done
  ultimately show ?thesis by (simp add: freshGame_def)
qed

subsection \<open>The number of mines asked for\<close>

text \<open>
  In a new game \<open>generateGrid\<close> keeps the default of 10 mines when the input is not a
  number for \<open>isNaN\<close>, and stores the input otherwise.
\<close>

lemma generateGrid_mines:
  "mines (stats (generateGrid ToNumber sizeOfGame numberOfMines (resetGame d))) =
     (if isNaN ToNumber (JString numberOfMines) then JNumber (Finite 10) else JString numberOfMines)"
  by (simp add: generateGrid_def resetGame_def isNaN_def Let_def)

text \<open>
  Strings that the language converts to a number, and strings that it converts to
  \<open>NaN\<close>.  A string of white space converts to 0.
\<close>

lemma stringToNumber_numeric:
  "stringToNumber ''64'' = Finite 64"
  "stringToNumber '' 1.5e1 '' = Finite 15"
  "stringToNumber ''-.5'' = Finite (- 1 / 2)"
  "stringToNumber ''0x1F'' = Finite 31"
  "stringToNumber ''-Infinity'' = NegInfinity"
  by (simp_all add: number_defs)

lemma stringToNumber_NaN:
  "stringToNumber ''ten'' = NaN"
  "stringToNumber ''12px'' = NaN"
  "stringToNumber ''1 2'' = NaN"
  "stringToNumber ''.'' = NaN"
  "stringToNumber ''1e'' = NaN"
  "stringToNumber ''+-1'' = NaN"
  "stringToNumber ''0x'' = NaN"
  by (simp_all add: number_defs)

lemma stringToNumber_blank:
  assumes "list_all isStrWhiteSpaceChar s"
  shows "stringToNumber s = Finite 0"
proof -
  from assms have e: "dropWhile isStrWhiteSpaceChar s = []" by (simp add: list_all_iff)
  show ?thesis unfolding stringToNumber_def trimString_def e by simp
qed

text \<open>
  The text \<open>ten\<close> is not a number for \<open>isNaN\<close>: the default of 10 mines is kept.
\<close>

lemma generateGrid_keeps_default:
  "mines (stats (generateGrid stringToNumber sizeOfGame ''ten'' (resetGame d))) = JNumber (Finite 10)"
  unfolding generateGrid_mines by (simp add: isNaN_def stringToNumber_NaN)

text \<open>
  When the input converts to 0, \<open>generateGrid\<close> stores it in place of the default and
  \<open>plantAllMines\<close> plants no mine: the new game has no mined cell.
\<close>

lemma init_no_mines:
  assumes T: "ToNumber s = Finite 0" and size: "0 \<le> sizeOfGame"
  shows "\<exists>d'. init ToNumber random sizeOfGame s d = Some (Inr d') \<and>
           mines (stats d') = JString s \<and> minesPlanted (stats d') = 0 \<and> countMined d' = 0"
proof -
  let ?g = "generateGrid ToNumber sizeOfGame s (resetGame d)"
  let ?f = "freshGame (8 * sizeOfGame) (8 * sizeOfGame) (JString s)"
  have st: "stats ?g = \<lparr>clicks = 0, cols = 8 * sizeOfGame, mines = JString s, minesPlanted = 0,
               rows = 8 * sizeOfGame, seconds = 0\<rparr>"
    using T by (simp add: generateGrid_def resetGame_def isNaN_def Let_def)
  have gr: "grid ?g = grid ?f"
    using T by (simp add: generateGrid_def resetGame_def isNaN_def Let_def freshGame_def)
  have fr: "mineFree ?f" using size by (intro mineFree_freshGame) simp_all
  have hm: "hasMine ?g r c = hasMine ?f r c" for r c
    by (rule hasMine_same) (simp_all add: gr st freshGame_def)
  have cm: "countMined ?g = 0"
    using fr by (simp add: mineFree_def countMined_def hm allCells_def st freshGame_def)
  have pl: "plantAllMines ToNumber random 0 ?g = Some (Inr ?g)"
    by (subst plantAllMines.simps) (simp add: st T)
  let ?d' = "(buildGrid ?g)\<lparr>active := True\<rparr>"
  have ret: "init ToNumber random sizeOfGame s d = Some (Inr ?d')"
    by (simp add: init_def pl andThen_def)
  have "countMined ?d' = countMined ?g"
    by (simp add: countMined_def hasMine_def getCell_def allCells_def buildGrid_def)
  with cm have "countMined ?d' = 0" by simp
  moreover have "mines (stats ?d') = JString s" "minesPlanted (stats ?d') = 0"
    by (simp_all add: buildGrid_def st)
  ultimately show ?thesis using ret by blast
qed

text \<open>
  C8 fails: an input that is no number replaces the default of 10 mines.  A new game is
  started with the field for the number of mines left empty.  The empty string converts
  to 0, so \<open>isNaN\<close> is false for it; \<open>generateGrid\<close> stores the empty string in
  \<open>data.stats.mines\<close> in place of the 10, the test \<open>0 < ''\<close> of \<open>plantAllMines\<close> fails at
  once, and the game starts without any mine, whatever the random values are.
\<close>

theorem init_blank_mine_count:
  "stringToNumber '''' = Finite 0 \<and> \<not> isNaN stringToNumber (JString '''') \<and>
   mines (stats (resetGame blank)) = JNumber (Finite 10) \<and>
   mines (stats (generateGrid stringToNumber 1 '''' (resetGame blank))) = JString '''' \<and>
   (\<forall>random. \<exists>d'. init stringToNumber random 1 '''' blank = Some (Inr d') \<and>
        mines (stats d') = JString '''' \<and> minesPlanted (stats d') = 0 \<and> countMined d' = 0)"
proof -
  have T: "stringToNumber '''' = Finite 0" by (rule stringToNumber_blank) simp
  then have n: "\<not> isNaN stringToNumber (JString '''')" by (simp add: isNaN_def)
  have d: "mines (stats (resetGame blank)) = JNumber (Finite 10)" by (simp add: resetGame_def)
  have g: "mines (stats (generateGrid stringToNumber 1 '''' (resetGame blank))) = JString ''''"
    unfolding generateGrid_mines using n by simp
  have "\<exists>d'. init stringToNumber random 1 '''' blank = Some (Inr d') \<and>
        mines (stats d') = JString '''' \<and> minesPlanted (stats d') = 0 \<and> countMined d' = 0" for random
    using T by (rule init_no_mines) simp
  with T n d g show ?thesis by blast
qed

section \<open>Revealing the empty region\<close>

subsection \<open>Connected regions\<close>

lemma in_directions:
  "(a, b) \<in> set directions \<longleftrightarrow> (a, b) \<noteq> (0, 0) \<and> - 1 \<le> a \<and> a \<le> 1 \<and> - 1 \<le> b \<and> b \<le> 1"
  by (simp add: directions_def) presburger

lemma adjacent_sym: "adjacent p q \<Longrightarrow> adjacent q p"
  unfolding adjacent_def in_directions by auto

lemma neighbours: "set (map (\<lambda>dir. (r + snd dir, c + fst dir)) directions) = {q. adjacent (r, c) q}"
proof -
  have "q \<in> (\<lambda>dir. (r + snd dir, c + fst dir)) ` set directions \<longleftrightarrow> adjacent (r, c) q" for q
  proof
    assume "q \<in> (\<lambda>dir. (r + snd dir, c + fst dir)) ` set directions"
    then show "adjacent (r, c) q" by (auto simp: adjacent_def)
  next
    assume "adjacent (r, c) q"
    then have "(snd q - c, fst q - r) \<in> set directions" by (simp add: adjacent_def)
    moreover have "q = (r + snd (snd q - c, fst q - r), c + fst (snd q - c, fst q - r))" by simp
    ultimately show "q \<in> (\<lambda>dir. (r + snd dir, c + fst dir)) ` set directions" by (rule rev_image_eqI)
  qed
  then show ?thesis by auto
qed

lemma reach_subset: "reach A n \<subseteq> A"
proof
  fix y assume "y \<in> reach A n"
  then show "y \<in> A" by induction auto
qed

lemma reach_mono: "A \<subseteq> B \<Longrightarrow> reach A n \<subseteq> reach B n"
proof
  fix y assume "A \<subseteq> B" "y \<in> reach A n"
  from this(2,1) show "y \<in> reach B n"
    by induction (auto intro: reach.intros)
qed

lemma reach_origin: "y \<in> reach A n \<Longrightarrow> n \<in> A"
  by (induction rule: reach.induct) auto

lemma reach_empty: "n \<notin> A \<Longrightarrow> reach A n = {}"
  using reach_origin by blast

lemma reach_trans: "m \<in> reach A n \<Longrightarrow> y \<in> reach A m \<Longrightarrow> y \<in> reach A n"
proof -
  assume m: "m \<in> reach A n" and "y \<in> reach A m"
  from this(2) show ?thesis
    by induction (auto intro: m reach.step)
qed

lemma reach_sym: "m \<in> reach A n \<Longrightarrow> n \<in> reach A m"
proof (induction rule: reach.induct)
  case origin
  then show ?case by (rule reach.origin)
next
  case (step p q)
  have "p \<in> A" using step.hyps(1) reach_subset by blast
  moreover have "adjacent q p" using step.hyps(2) by (rule adjacent_sym)
  ultimately have "p \<in> reach A q"
    using step.hyps(3) by (intro reach.step [OF reach.origin])
  then show ?case using step.IH by (rule reach_trans)
qed

text \<open>Removing a whole component leaves the other components as they are.\<close>

lemma reach_remove_component:
  assumes "m \<notin> reach A n"
  shows "reach (A - reach A n) m = reach A m"
proof
  show "reach (A - reach A n) m \<subseteq> reach A m" by (rule reach_mono) auto
  show "reach A m \<subseteq> reach (A - reach A n) m"
  proof
    fix y assume "y \<in> reach A m"
    then show "y \<in> reach (A - reach A n) m"
    proof induction
      case origin
      with assms show ?case by (intro reach.origin) simp
    next
      case (step p q)
      have "q \<notin> reach A n"
      proof
        assume "q \<in> reach A n"
        moreover have "q \<in> reach A m" using step.hyps by (rule reach.step)
        ultimately have "m \<in> reach A n" by (meson reach_sym reach_trans)
        with assms show False by simp
      qed
      with step.hyps(3) have "q \<in> A - reach A n" by simp
      with step.IH step.hyps(2) show ?case by (rule reach.step)
    qed
  qed
qed

lemma reach_component:
  "reach A n \<union> reach (A - reach A n) m = reach A n \<union> reach A m"
proof (cases "m \<in> reach A n")
  case True
  then have "reach A m \<subseteq> reach A n" by (auto intro: reach_trans)
  moreover have "reach (A - reach A n) m = {}" using True by (intro reach_empty) simp
  ultimately show ?thesis by auto
next
  case False
  then show ?thesis by (simp add: reach_remove_component)
qed

lemma sweep_union: "sweep A ns = (\<Union>n \<in> set ns. reach A n)"
proof (induction ns arbitrary: A)
  case Nil
  show ?case by simp
next
  case (Cons n ns)
  have "reach A n \<union> (\<Union>m \<in> set ns. reach (A - reach A n) m) =
        (\<Union>m \<in> set ns. reach A n \<union> reach (A - reach A n) m) \<union> reach A n" by auto
  also have "\<dots> = (\<Union>m \<in> set ns. reach A n \<union> reach A m) \<union> reach A n"
    by (simp only: reach_component)
  also have "\<dots> = reach A n \<union> (\<Union>m \<in> set ns. reach A m)" by auto
  finally show ?case by (simp add: Cons.IH)
qed

lemma reach_unfold:
  assumes "x \<in> A"
  shows "reach A x = insert x (\<Union>n \<in> {q. adjacent x q}. reach (A - {x}) n)"
proof
  show "insert x (\<Union>n \<in> {q. adjacent x q}. reach (A - {x}) n) \<subseteq> reach A x"
  proof -
    have "y \<in> reach A x" if "adjacent x n" "y \<in> reach (A - {x}) n" for n y
    proof -
      from that(2) have "n \<in> A" using reach_origin by blast
      with assms that(1) have "n \<in> reach A x" by (intro reach.step [OF reach.origin])
      moreover have "y \<in> reach A n" using that(2) reach_mono [of "A - {x}" A n] by blast
      ultimately show ?thesis by (rule reach_trans)
    qed
    with assms show ?thesis by (auto intro: reach.origin)
  qed
  show "reach A x \<subseteq> insert x (\<Union>n \<in> {q. adjacent x q}. reach (A - {x}) n)"
  proof
    fix y assume "y \<in> reach A x"
    then show "y \<in> insert x (\<Union>n \<in> {q. adjacent x q}. reach (A - {x}) n)"
    proof induction
      case origin
      show ?case by simp
    next
      case (step p q)
      show ?case
      proof (cases "q = x")
        case True
        then show ?thesis by simp
      next
        case qx: False
        show ?thesis
        proof (cases "p = x")
          case True
          with step.hyps qx have "adjacent x q" "q \<in> reach (A - {x}) q"
            by (auto intro: reach.origin)
          then show ?thesis by blast
        next
          case False
          with step.IH obtain n where "adjacent x n" "p \<in> reach (A - {x}) n" by auto
          moreover have "q \<in> A - {x}" using step.hyps(3) qx by simp
          with \<open>p \<in> reach (A - {x}) n\<close> step.hyps(2) have "q \<in> reach (A - {x}) n"
            by (rule reach.step)
          ultimately show ?thesis by blast
        qed
      qed
    qed
  qed
qed

subsection \<open>The table after a reveal\<close>

lemma length_revealCells [simp]: "length (revealCells S t) = length t"
  by (simp add: revealCells_def)

lemma length_revealCells_row [simp]: "r < length t \<Longrightarrow> length (revealCells S t ! r) = length (t ! r)"
  by (simp add: revealCells_def)

lemma nth_revealCells:
  "r < length t \<Longrightarrow> c < length (t ! r) \<Longrightarrow>
   revealCells S t ! r ! c =
     (if (int r, int c) \<in> S then insert Empty (t ! r ! c - {Unknown}) else t ! r ! c)"
  by (simp add: revealCells_def)

lemma table_eqI:
  assumes "length t' = length t"
    and "\<And>r. r < length t \<Longrightarrow> length (t' ! r) = length (t ! r)"
    and "\<And>r c. r < length t \<Longrightarrow> c < length (t ! r) \<Longrightarrow> t' ! r ! c = t ! r ! c"
  shows "t' = (t :: 'a list list)"
proof (rule nth_equalityI)
  show "length t' = length t" by fact
  fix r assume "r < length t'"
  with assms(1) have r: "r < length t" by simp
  show "t' ! r = t ! r"
  proof (rule nth_equalityI)
    show "length (t' ! r) = length (t ! r)" using r by (rule assms(2))
    fix c assume "c < length (t' ! r)"
    with assms(2) [OF r] have "c < length (t ! r)" by simp
    with r show "t' ! r ! c = t ! r ! c" by (rule assms(3))
  qed
qed

lemma revealCells_empty [simp]: "revealCells {} t = t"
  by (rule table_eqI) (simp_all add: nth_revealCells)

lemma revealCells_union: "revealCells S (revealCells S' t) = revealCells (S \<union> S') t"
  by (rule table_eqI) (auto simp: nth_revealCells)

lemma changeClasses_reveal:
  "changeClasses (\<lambda>k. insert Empty (k - {Unknown})) r c t = revealCells {(r, c)} t"
proof (rule table_eqI)
  show "length (changeClasses (\<lambda>k. insert Empty (k - {Unknown})) r c t) = length (revealCells {(r, c)} t)"
    by (simp add: changeClasses_def)
  show "length (changeClasses (\<lambda>k. insert Empty (k - {Unknown})) r c t ! r') = length (revealCells {(r, c)} t ! r')"
    if "r' < length (revealCells {(r, c)} t)" for r'
    using that by (cases "r' = nat r") (simp_all add: changeClasses_def)
  show "changeClasses (\<lambda>k. insert Empty (k - {Unknown})) r c t ! r' ! c' = revealCells {(r, c)} t ! r' ! c'"
    if "r' < length (revealCells {(r, c)} t)" "c' < length (revealCells {(r, c)} t ! r')" for r' c'
  proof -
    from that have rc: "r' < length t" "c' < length (t ! r')" by simp_all
    show ?thesis
    proof (cases "int r' = r \<and> int c' = c")
      case True
      with rc show ?thesis by (auto simp: changeClasses_def nth_revealCells)
    next
      case False
      then have "nat r \<noteq> r' \<or> nat c \<noteq> c' \<or> r < 0 \<or> c < 0" by arith
      with rc False show ?thesis
        by (cases "nat r = r'") (auto simp: changeClasses_def nth_revealCells)
    qed
  qed
qed

lemma hasClass_revealCells:
  "hasClass (revealCells S t) r c Unknown = (hasClass t r c Unknown \<and> (r, c) \<notin> S)"
proof (cases "0 \<le> r \<and> r < int (length t) \<and> 0 \<le> c \<and> c < int (length (t ! nat r))")
  case False
  then show ?thesis by (auto simp: hasClass_def)
next
  case True
  then have "nat r < length t" "nat c < length (t ! nat r)" by auto
  with True show ?thesis by (auto simp: hasClass_def nth_revealCells)
qed

subsection \<open>The game after a reveal\<close>

lemma getCell_tds [simp]: "getCell (d\<lparr>tds := t\<rparr>) r c = getCell d r c"
  by (simp add: getCell_def)

lemma countFrom_tds [simp]: "countFrom (d\<lparr>tds := t\<rparr>) r c ds n = countFrom d r c ds n"
  by (induction ds arbitrary: n) (simp_all split: sum.splits option.splits)

lemma countSurroundingMines_tds [simp]:
  "countSurroundingMines (d\<lparr>tds := t\<rparr>) r c = countSurroundingMines d r c"
  by (simp add: countSurroundingMines_def)

lemma gridOK_tds [simp]: "gridOK (d\<lparr>tds := t\<rparr>) = gridOK d"
  by (simp add: gridOK_def split: option.splits)

lemma inBounds_tds [simp]: "inBounds (d\<lparr>tds := t\<rparr>) r c = inBounds d r c"
  by (simp add: inBounds_def)

lemma hasMine_tds [simp]: "hasMine (d\<lparr>tds := t\<rparr>) r c = hasMine d r c"
  by (simp add: hasMine_def)

lemma passable_reveal: "passable (reveal S d) p = (passable d p \<and> p \<notin> S)"
  by (cases p) (auto simp: passable_def reveal_def hasClass_revealCells)

lemma reveal_empty [simp]: "reveal {} d = d"
  by (simp add: reveal_def)

lemma reveal_reveal: "reveal S (reveal S' d) = reveal (S \<union> S') d"
  by (simp add: reveal_def revealCells_union)

lemma gridOK_reveal [simp]: "gridOK (reveal S d) = gridOK d"
  by (simp add: reveal_def)

lemma finite_passable: "finite {p. passable d p}"
proof (rule finite_subset)
  show "{p. passable d p} \<subseteq> set (allCells d)"
    by (auto simp: set_allCells passable_def)
qed simp

subsection \<open>The recursion\<close>

lemma revealEmptyAdjacent_stop:
  assumes "gridOK d" and "\<not> passable d (r, c)"
  shows "revealEmptyAdjacent r c d = Some (Inr d)"
proof (cases "inBounds d r c")
  case False
  then show ?thesis
    by (subst revealEmptyAdjacent.simps) (auto simp: inBounds_def)
next
  case True
  then have b: "\<not> (r < 0 \<or> r \<ge> rows (stats d) \<or> c < 0 \<or> c \<ge> cols (stats d))"
    by (auto simp: inBounds_def)
  from assms(2) True have
    "\<not> hasClass (tds d) r c Unknown \<or> hasMine d r c \<or> countSurroundingMines d r c \<noteq> Inr 0"
    by (simp add: passable_def)
  moreover obtain n where n: "countSurroundingMines d r c = Inr n"
    using countSurroundingMines_gridOK [OF assms(1)] by blast
  ultimately have stop: "\<not> hasClass (tds d) r c Unknown \<or> mined (the (grid d) ! nat r ! nat c) \<or> n > 0"
    using True by (auto simp: hasMine_gridOK [OF assms(1)])
  show ?thesis
    by (subst revealEmptyAdjacent.simps)
       (use b n stop True in \<open>auto simp: getCell_gridOK [OF assms(1)] minedOf_def\<close>)
qed

lemma revealEmptyAdjacent_go:
  assumes "gridOK d" and "passable d (r, c)"
  shows "revealEmptyAdjacent r c d =
           forEach directions (\<lambda>dir d'. revealEmptyAdjacent (r + snd dir) (c + fst dir) d')
             (reveal {(r, c)} d)"
proof -
  from assms(2) have inb: "inBounds d r c" and u: "hasClass (tds d) r c Unknown"
    and nm: "\<not> hasMine d r c" and z: "countSurroundingMines d r c = Inr 0"
    by (simp_all add: passable_def)
  from inb have b: "\<not> (r < 0 \<or> r \<ge> rows (stats d) \<or> c < 0 \<or> c \<ge> cols (stats d))"
    by (auto simp: inBounds_def)
  from nm inb have nm': "\<not> mined (the (grid d) ! nat r ! nat c)"
    by (simp add: hasMine_gridOK [OF assms(1)])
  show ?thesis
    by (subst revealEmptyAdjacent.simps)
       (use b u z nm' inb in \<open>simp add: getCell_gridOK [OF assms(1)] minedOf_def reveal_def changeClasses_reveal\<close>)
qed

lemma revealEmptyAdjacent_region:
  "gridOK d \<Longrightarrow> revealEmptyAdjacent r c d = Some (Inr (reveal (region d (r, c)) d))"
proof (induction "card {p. passable d p}" arbitrary: d r c rule: less_induct)
  case less
  let ?A = "{p. passable d p}"
  show ?case
  proof (cases "passable d (r, c)")
    case False
    then have "region d (r, c) = {}" by (simp add: region_def reach_empty)
    with revealEmptyAdjacent_stop [OF less.prems False] show ?thesis by simp
  next
    case True
    let ?d1 = "reveal {(r, c)} d"
    let ?nb = "\<lambda>dir. (r + snd dir, c + fst dir)"
    let ?body = "\<lambda>dir d'. revealEmptyAdjacent (r + snd dir) (c + fst dir) d'"
    have A1: "{p. passable ?d1 p} = ?A - {(r, c)}" by (auto simp: passable_reveal)
    have small: "card {p. passable ?d1 p} < card ?A"
      unfolding A1 using True by (intro card_Diff1_less finite_passable) simp
    have loop: "forEach ns ?body e =
                  Some (Inr (reveal (sweep {p. passable e p} (map ?nb ns)) e))"
      if "gridOK e" "card {p. passable e p} < card ?A" for ns e
      using that
    proof (induction ns arbitrary: e)
      case Nil
      show ?case by simp
    next
      case (Cons dir ns)
      let ?R = "reach {p. passable e p} (?nb dir)"
      let ?e' = "reveal ?R e"
      have first: "?body dir e = Some (Inr ?e')"
        using less.hyps [OF Cons.prems(2) Cons.prems(1)] by (simp add: region_def)
      have A': "{p. passable ?e' p} = {p. passable e p} - ?R" by (auto simp: passable_reveal)
      have "card {p. passable ?e' p} \<le> card {p. passable e p}"
        unfolding A' by (intro card_mono finite_passable) auto
      with Cons.prems(2) have "card {p. passable ?e' p} < card ?A" by simp
      moreover have "gridOK ?e'" using Cons.prems(1) by simp
      ultimately have "forEach ns ?body ?e' =
          Some (Inr (reveal (sweep {p. passable ?e' p} (map ?nb ns)) ?e'))"
        by (rule Cons.IH [rotated])
      then show ?case
        by (simp add: first andThen_def A' reveal_reveal Un_commute)
    qed
    have "revealEmptyAdjacent r c d = forEach directions ?body ?d1"
      using less.prems True by (rule revealEmptyAdjacent_go)
    also have "\<dots> = Some (Inr (reveal (sweep {p. passable ?d1 p} (map ?nb directions)) ?d1))"
      using less.prems small by (intro loop) simp
    also have "reveal (sweep {p. passable ?d1 p} (map ?nb directions)) ?d1 =
               reveal (insert (r, c) (\<Union>n \<in> {q. adjacent (r, c) q}. reach (?A - {(r, c)}) n)) d"
      by (simp add: reveal_reveal sweep_union A1 neighbours del: set_map)
    also have "insert (r, c) (\<Union>n \<in> {q. adjacent (r, c) q}. reach (?A - {(r, c)}) n) = region d (r, c)"
      unfolding region_def using True by (intro reach_unfold [symmetric]) simp
    finally show ?thesis .
  qed
qed


subsection \<open>What a reveal changes\<close>

lemma hasClass_revealCells_other:
  "(r, c) \<notin> S \<Longrightarrow> hasClass (revealCells S t) r c k = hasClass t r c k"
proof (cases "0 \<le> r \<and> r < int (length t) \<and> 0 \<le> c \<and> c < int (length (t ! nat r))")
  case False
  then show ?thesis by (auto simp: hasClass_def)
next
  case True
  assume "(r, c) \<notin> S"
  moreover from True have "nat r < length t" "nat c < length (t ! nat r)" by auto
  ultimately show ?thesis using True by (auto simp: hasClass_def nth_revealCells)
qed

lemma revealedBy_reveal:
  "revealedBy d (reveal S d) p = (p \<in> S \<and> hasClass (tds d) (fst p) (snd p) Unknown)"
  by (cases p) (auto simp: revealedBy_def reveal_def hasClass_revealCells)

lemma region_passable: "p \<in> region d q \<Longrightarrow> passable d p"
  unfolding region_def using reach_subset by blast

lemma region_closed:
  "p \<in> region d o' \<Longrightarrow> adjacent p q \<Longrightarrow> passable d q \<Longrightarrow> q \<in> region d o'"
  unfolding region_def by (rule reach.step) simp_all

lemma revealedBy_region:
  "revealedBy d (reveal (region d q) d) p = (p \<in> region d q)"
  unfolding revealedBy_reveal using region_passable [of p d q] by (auto simp: passable_def)

lemma zero_no_mined_neighbour:
  assumes "gridOK d" and "countSurroundingMines d (fst p) (snd p) = Inr 0" and "adjacent p q"
  shows "\<not> hasMine d (fst q) (snd q)"
proof -
  from assms(1,2) have "\<forall>dir \<in> set directions. \<not> hasMine d (fst p + snd dir) (snd p + fst dir)"
    by (simp add: countSurroundingMines_gridOK filter_empty_conv)
  moreover from assms(3) have "q \<in> set (map (\<lambda>dir. (fst p + snd dir, snd p + fst dir)) directions)"
    unfolding neighbours by simp
  ultimately show ?thesis by auto
qed

lemma not_passable_cases:
  assumes "gridOK d" and "\<not> passable d q" and "\<not> hasMine d (fst q) (snd q)"
  shows "\<not> inBounds d (fst q) (snd q) \<or> numbered d q \<or> \<not> hasClass (tds d) (fst q) (snd q) Unknown"
proof -
  obtain n where n: "countSurroundingMines d (fst q) (snd q) = Inr n"
    using countSurroundingMines_gridOK [OF assms(1)] by blast
  with assms(2,3) show ?thesis
    by (cases n) (auto simp: passable_def numbered_def)
qed

lemma region_alone:
  assumes "passable d (r, c)"
    and "\<forall>dir \<in> set directions. \<not> passable d (r + snd dir, c + fst dir)"
  shows "region d (r, c) = {(r, c)}"
proof -
  have "reach ({p. passable d p} - {(r, c)}) n = {}" if "adjacent (r, c) n" for n
  proof (rule reach_empty)
    from that have "n \<in> set (map (\<lambda>dir. (r + snd dir, c + fst dir)) directions)"
      unfolding neighbours by simp
    with assms(2) show "n \<notin> {p. passable d p} - {(r, c)}" by auto
  qed
  then show ?thesis
    unfolding region_def using assms(1) by (subst reach_unfold) auto
qed


subsection \<open>The claims about the reveal\<close>

lemma reveal_strip:
  "revealEmptyAdjacent 0 2 strip =
     Some (Inr (strip\<lparr>tds := [[{Unknown}, {Flagged, Sprite}, {Empty}, {Unknown}, {Unknown}]]\<rparr>))"
proof -
  have ok: "gridOK strip" by (simp add: strip_def eval_defs)
  have "region strip (0, 2) = {(0, 2)}"
    by (rule region_alone) (simp_all add: strip_def eval_defs)
  moreover have "reveal {(0, 2)} strip =
      strip\<lparr>tds := [[{Unknown}, {Flagged, Sprite}, {Empty}, {Unknown}, {Unknown}]]\<rparr>"
    by (simp add: strip_def eval_defs upt_rec numeral_eq_Suc)
  ultimately show ?thesis
    using revealEmptyAdjacent_region [OF ok, of 0 2] by simp
qed

lemma reveal_flaggedRow:
  "revealEmptyAdjacent 0 0 flaggedRow =
     Some (Inr (flaggedRow\<lparr>tds := [[{Empty}, {Flagged, Sprite}, {Unknown}]]\<rparr>))"
proof -
  have ok: "gridOK flaggedRow" by (simp add: flaggedRow_def eval_defs)
  have "region flaggedRow (0, 0) = {(0, 0)}"
    by (rule region_alone) (simp_all add: flaggedRow_def eval_defs)
  moreover have "reveal {(0, 0)} flaggedRow =
      flaggedRow\<lparr>tds := [[{Empty}, {Flagged, Sprite}, {Unknown}]]\<rparr>"
    by (simp add: flaggedRow_def eval_defs upt_rec numeral_eq_Suc)
  ultimately show ?thesis
    using revealEmptyAdjacent_region [OF ok, of 0 0] by simp
qed

text \<open>
  C4, as amended.  On a well-formed grid, from a starting cell that is on the board, not
  revealed (its \<open>td\<close> has the class \<open>unknown\<close>), not mined and without adjacent mines,
  \<open>revealEmptyAdjacent\<close> returns, and the cells it reveals are exactly the connected
  region of unrevealed, unflagged, unmined cells without adjacent mines around the
  start: the start is in it, every cell of it is passable, it is closed under passable
  neighbours, every \<open>td\<close> outside it keeps its classes, and no numbered cell (one with
  an adjacent mine) is revealed.
\<close>

theorem revealEmptyAdjacent_reveals_region:
  assumes "gridOK d" and "inBounds d r c" and "hasClass (tds d) r c Unknown"
    and "\<not> hasMine d r c" and "countSurroundingMines d r c = Inr 0"
  shows "\<exists>d'. revealEmptyAdjacent r c d = Some (Inr d') \<and> d' = reveal (region d (r, c)) d \<and>
           (r, c) \<in> region d (r, c) \<and>
           (\<forall>p. revealedBy d d' p \<longleftrightarrow> p \<in> region d (r, c)) \<and>
           (\<forall>p. p \<in> region d (r, c) \<longrightarrow> passable d p) \<and>
           (\<forall>p q. p \<in> region d (r, c) \<and> adjacent p q \<and> passable d q \<longrightarrow> q \<in> region d (r, c)) \<and>
           (\<forall>p k. p \<notin> region d (r, c) \<longrightarrow>
              hasClass (tds d') (fst p) (snd p) k = hasClass (tds d) (fst p) (snd p) k) \<and>
           (\<forall>p. numbered d p \<longrightarrow> \<not> revealedBy d d' p)"
proof -
  let ?R = "region d (r, c)"
  have ret: "revealEmptyAdjacent r c d = Some (Inr (reveal ?R d))"
    using assms(1) by (rule revealEmptyAdjacent_region)
  have "passable d (r, c)" using assms(2-5) by (simp add: passable_def)
  then have start: "(r, c) \<in> ?R" unfolding region_def by (intro reach.origin) simp
  have other: "hasClass (tds (reveal ?R d)) (fst p) (snd p) k = hasClass (tds d) (fst p) (snd p) k"
    if "p \<notin> ?R" for p k
    using that by (cases p) (simp add: reveal_def hasClass_revealCells_other)
  have num: "\<not> revealedBy d (reveal ?R d) p" if "numbered d p" for p
  proof -
    from that have "\<not> passable d p" by (auto simp: numbered_def passable_def)
    then show ?thesis unfolding revealedBy_region using region_passable by blast
  qed
  from ret start other num show ?thesis
    by (auto simp: revealedBy_region region_passable intro: region_closed)
qed

theorem revealEmptyAdjacent_reveals_region_witness:
  "gridOK openRow \<and> inBounds openRow 0 0 \<and> hasClass (tds openRow) 0 0 Unknown \<and>
   countSurroundingMines openRow 0 0 = Inr 0 \<and>
   revealEmptyAdjacent 0 0 openRow = Some (Inr (reveal (region openRow (0, 0)) openRow)) \<and>
   (0, 0) \<in> region openRow (0, 0) \<and> (0, 1) \<notin> region openRow (0, 0)"
proof -
  have h: "gridOK openRow" "inBounds openRow 0 0" "hasClass (tds openRow) 0 0 Unknown"
    "\<not> hasMine openRow 0 0" "countSurroundingMines openRow 0 0 = Inr 0"
    by (simp_all add: openRow_def eval_defs)
  have np: "\<not> passable openRow (0, 1)" by (simp add: openRow_def eval_defs)
  from revealEmptyAdjacent_reveals_region [OF h] obtain d' where
    d': "revealEmptyAdjacent 0 0 openRow = Some (Inr d')"
      "d' = reveal (region openRow (0, 0)) openRow"
      "(0, 0) \<in> region openRow (0, 0)"
      "\<forall>p. p \<in> region openRow (0, 0) \<longrightarrow> passable openRow p"
    by blast
  from d'(4) np have "(0, 1) \<notin> region openRow (0, 0)" by blast
  with d'(1,2,3) h show ?thesis by simp
qed

text \<open>
  C4 as stated fails on the board of one row \<open>strip\<close>: cell 4 is mined, cell 1 is
  flagged, the start is cell 2.  Only the start is revealed: the numbered cell 3 that
  borders it keeps the class \<open>unknown\<close>, and so do the cells 0 and 1, which have no
  adjacent mine and are connected to the start.
\<close>

theorem revealEmptyAdjacent_leaves_numbered_cells:
  "inBounds strip 0 2 \<and> hasClass (tds strip) 0 2 Unknown \<and> \<not> hasMine strip 0 2 \<and>
   countSurroundingMines strip 0 2 = Inr 0 \<and>
   revealEmptyAdjacent 0 2 strip =
     Some (Inr (strip\<lparr>tds := [[{Unknown}, {Flagged, Sprite}, {Empty}, {Unknown}, {Unknown}]]\<rparr>)) \<and>
   adjacent (0, 2) (0, 3) \<and> countSurroundingMines strip 0 3 = Inr 1 \<and>
   adjacent (0, 2) (0, 1) \<and> countSurroundingMines strip 0 1 = Inr 0 \<and> \<not> hasMine strip 0 1 \<and>
   adjacent (0, 1) (0, 0) \<and> countSurroundingMines strip 0 0 = Inr 0 \<and> \<not> hasMine strip 0 0"
  using reveal_strip by (simp add: strip_def eval_defs)

text \<open>
  C5, as amended.  From such a starting cell, no revealed cell is mined, and every cell
  next to a revealed cell that is not revealed itself is off the board, or has an
  adjacent mine, or did not have the class \<open>unknown\<close> when the reveal started (it was
  flagged or revealed before).
\<close>

theorem revealEmptyAdjacent_boundary:
  assumes "gridOK d" and "inBounds d r c" and "hasClass (tds d) r c Unknown"
    and "\<not> hasMine d r c" and "countSurroundingMines d r c = Inr 0"
  shows "\<exists>d'. revealEmptyAdjacent r c d = Some (Inr d') \<and>
           (\<forall>p. revealedBy d d' p \<longrightarrow> \<not> hasMine d (fst p) (snd p)) \<and>
           (\<forall>p q. revealedBy d d' p \<and> adjacent p q \<and> \<not> revealedBy d d' q \<longrightarrow>
                  \<not> inBounds d (fst q) (snd q) \<or> numbered d q \<or>
                  \<not> hasClass (tds d) (fst q) (snd q) Unknown)"
proof -
  let ?R = "region d (r, c)"
  let ?d' = "reveal ?R d"
  have ret: "revealEmptyAdjacent r c d = Some (Inr ?d')"
    using assms(1) by (rule revealEmptyAdjacent_region)
  have safe: "\<not> hasMine d (fst p) (snd p)" if "revealedBy d ?d' p" for p
    using that region_passable [of p d "(r, c)"] by (simp add: revealedBy_region passable_def)
  have edge: "\<not> inBounds d (fst q) (snd q) \<or> numbered d q \<or> \<not> hasClass (tds d) (fst q) (snd q) Unknown"
    if "revealedBy d ?d' p" "adjacent p q" "\<not> revealedBy d ?d' q" for p q
  proof -
    from that(1) have p: "p \<in> ?R" by (simp add: revealedBy_region)
    then have "passable d p" by (rule region_passable)
    then have "countSurroundingMines d (fst p) (snd p) = Inr 0" by (simp add: passable_def)
    with assms(1) have nm: "\<not> hasMine d (fst q) (snd q)"
      using that(2) by (rule zero_no_mined_neighbour)
    from that(3) have "q \<notin> ?R" by (simp add: revealedBy_region)
    with p that(2) have "\<not> passable d q" using region_closed by blast
    with assms(1) show ?thesis using nm by (rule not_passable_cases)
  qed
  from ret safe edge show ?thesis by blast
qed

theorem revealEmptyAdjacent_boundary_witness:
  "gridOK openRow \<and> inBounds openRow 0 0 \<and> hasClass (tds openRow) 0 0 Unknown \<and>
   countSurroundingMines openRow 0 0 = Inr 0 \<and>
   (\<exists>d'. revealEmptyAdjacent 0 0 openRow = Some (Inr d') \<and> adjacent (0, 0) (0, 1) \<and>
         (revealedBy openRow d' (0, 1) \<or> numbered openRow (0, 1)))"
proof -
  have h: "gridOK openRow" "inBounds openRow 0 0" "hasClass (tds openRow) 0 0 Unknown"
    "\<not> hasMine openRow 0 0" "countSurroundingMines openRow 0 0 = Inr 0"
    by (simp_all add: openRow_def eval_defs)
  have "numbered openRow (0, 1)" "adjacent (0, 0) (0, 1)"
    by (simp_all add: openRow_def numbered_def eval_defs)
  with revealEmptyAdjacent_boundary [OF h] h show ?thesis by auto
qed

text \<open>
  C5 as stated fails on the board of one row \<open>flaggedRow\<close>, which has no mine and whose
  middle cell is flagged: from cell 0 only that cell is revealed, and its neighbour,
  cell 1, is on the board and has no adjacent mine.
\<close>

theorem revealEmptyAdjacent_boundary_flagged:
  "inBounds flaggedRow 0 0 \<and> hasClass (tds flaggedRow) 0 0 Unknown \<and> \<not> hasMine flaggedRow 0 0 \<and>
   countSurroundingMines flaggedRow 0 0 = Inr 0 \<and>
   revealEmptyAdjacent 0 0 flaggedRow =
     Some (Inr (flaggedRow\<lparr>tds := [[{Empty}, {Flagged, Sprite}, {Unknown}]]\<rparr>)) \<and>
   adjacent (0, 0) (0, 1) \<and> inBounds flaggedRow 0 1 \<and>
   countSurroundingMines flaggedRow 0 1 = Inr 0"
  using reveal_flaggedRow by (simp add: flaggedRow_def eval_defs)

text \<open>
  C9. On a well-formed grid, a flagged cell (its \<open>td\<close> has the class \<open>flagged\<close> and, as
  the click handler leaves it, not the class \<open>unknown\<close>) keeps all its classes through
  \<open>revealEmptyAdjacent\<close>, and every cell that is revealed is connected to the start by
  cells without mine and adjacent mine other than the flagged cell.  So a flagged cell
  can keep part of such a region unrevealed: there is a game where a cell that is
  connected to the start through cells without adjacent mines stays unrevealed behind
  a flag.
\<close>

theorem revealEmptyAdjacent_flag_barrier:
  assumes "gridOK d" and "hasClass (tds d) fr fc Flagged" and "\<not> hasClass (tds d) fr fc Unknown"
  shows "(\<exists>d'. revealEmptyAdjacent r c d = Some (Inr d') \<and>
            (\<forall>k. hasClass (tds d') fr fc k = hasClass (tds d) fr fc k) \<and>
            (\<forall>p. revealedBy d d' p \<longrightarrow> p \<in> reach (zeroCells d - {(fr, fc)}) (r, c))) \<and>
         (\<exists>d0 d1. gridOK d0 \<and> hasClass (tds d0) 0 1 Flagged \<and>
            revealEmptyAdjacent 0 0 d0 = Some (Inr d1) \<and>
            (0, 2) \<in> reach (zeroCells d0) (0, 0) \<and>
            hasClass (tds d0) 0 2 Unknown \<and> hasClass (tds d1) 0 2 Unknown)"
proof
  let ?R = "region d (r, c)"
  let ?d' = "reveal ?R d"
  have ret: "revealEmptyAdjacent r c d = Some (Inr ?d')"
    using assms(1) by (rule revealEmptyAdjacent_region)
  have "\<not> passable d (fr, fc)" using assms(3) by (simp add: passable_def)
  then have notin: "(fr, fc) \<notin> ?R" using region_passable by blast
  then have keep: "hasClass (tds ?d') fr fc k = hasClass (tds d) fr fc k" for k
    by (simp add: reveal_def hasClass_revealCells_other)
  have "{q. passable d q} \<subseteq> zeroCells d - {(fr, fc)}"
    using \<open>\<not> passable d (fr, fc)\<close> by (auto simp: passable_def zeroCells_def)
  then have "?R \<subseteq> reach (zeroCells d - {(fr, fc)}) (r, c)"
    unfolding region_def by (rule reach_mono)
  then have path: "p \<in> reach (zeroCells d - {(fr, fc)}) (r, c)" if "revealedBy d ?d' p" for p
    using that by (auto simp: revealedBy_region)
  from ret keep path
  show "\<exists>d'. revealEmptyAdjacent r c d = Some (Inr d') \<and>
            (\<forall>k. hasClass (tds d') fr fc k = hasClass (tds d) fr fc k) \<and>
            (\<forall>p. revealedBy d d' p \<longrightarrow> p \<in> reach (zeroCells d - {(fr, fc)}) (r, c))"
    by blast
next
  let ?d1 = "flaggedRow\<lparr>tds := [[{Empty}, {Flagged, Sprite}, {Unknown}]]\<rparr>"
  have ok: "gridOK flaggedRow" by (simp add: flaggedRow_def eval_defs)
  have ret: "revealEmptyAdjacent 0 0 flaggedRow = Some (Inr ?d1)" by (rule reveal_flaggedRow)
  have z: "(0, 0) \<in> zeroCells flaggedRow" "(0, 1) \<in> zeroCells flaggedRow"
    "(0, 2) \<in> zeroCells flaggedRow"
    by (simp_all add: zeroCells_def flaggedRow_def eval_defs)
  have a: "adjacent (0, 0) (0, 1)" "adjacent (0, 1) (0, 2)" by (simp_all add: adjacent_def directions_def)
  have "(0, 1) \<in> reach (zeroCells flaggedRow) (0, 0)"
    using reach.origin [OF z(1)] a(1) z(2) by (rule reach.step)
  then have far: "(0, 2) \<in> reach (zeroCells flaggedRow) (0, 0)"
    using a(2) z(3) by (rule reach.step)
  have "hasClass (tds flaggedRow) 0 1 Flagged" "hasClass (tds flaggedRow) 0 2 Unknown"
    "hasClass (tds ?d1) 0 2 Unknown"
    by (simp_all add: flaggedRow_def eval_defs)
  with ok ret far
  show "\<exists>d0 d1. gridOK d0 \<and> hasClass (tds d0) 0 1 Flagged \<and>
            revealEmptyAdjacent 0 0 d0 = Some (Inr d1) \<and>
            (0, 2) \<in> reach (zeroCells d0) (0, 0) \<and>
            hasClass (tds d0) 0 2 Unknown \<and> hasClass (tds d1) 0 2 Unknown"
    by blast
qed

theorem revealEmptyAdjacent_flag_barrier_witness:
  "gridOK strip \<and> hasClass (tds strip) 0 1 Flagged \<and> \<not> hasClass (tds strip) 0 1 Unknown \<and>
   (\<exists>d'. revealEmptyAdjacent 0 2 strip = Some (Inr d') \<and> hasClass (tds d') 0 1 Flagged \<and>
         \<not> hasClass (tds d') 0 1 Empty)"
proof -
  have h: "gridOK strip" "hasClass (tds strip) 0 1 Flagged" "\<not> hasClass (tds strip) 0 1 Unknown"
    by (simp_all add: strip_def eval_defs)
  have "\<not> hasClass (tds strip) 0 1 Empty" by (simp add: strip_def eval_defs)
  with revealEmptyAdjacent_flag_barrier [OF h, of 0 2] h show ?thesis by auto
qed


section \<open>Validation and clicks\<close>

subsection \<open>The table and its cells\<close>

lemma tdExists_D:
  "tdExists t r c \<Longrightarrow> 0 \<le> r \<and> nat r < length t \<and> 0 \<le> c \<and> nat c < length (t ! nat r)"
  by (auto simp: tdExists_def)

lemma hasClass_iff: "hasClass t r c k = (tdExists t r c \<and> k \<in> t ! nat r ! nat c)"
  by (simp add: hasClass_def tdExists_def)

lemma changeClasses_iff:
  "changeClasses f r c t =
     (if tdExists t r c then t[nat r := (t ! nat r)[nat c := f (t ! nat r ! nat c)]] else t)"
  by (simp add: changeClasses_def tdExists_def)

lemma set_allTds:
  "set (allTds t) = {(r, c). 0 \<le> r \<and> r < int (length t) \<and> 0 \<le> c \<and> c < int (length (t ! nat r))}"
proof -
  have mem: "(r, c) \<in> set (allTds t) \<longleftrightarrow> (\<exists>i<length t. \<exists>j<length (t ! i). r = int i \<and> c = int j)"
    for r c
    by (fastforce simp: allTds_def image_iff)
  have "(r, c) \<in> set (allTds t) \<longleftrightarrow>
          0 \<le> r \<and> r < int (length t) \<and> 0 \<le> c \<and> c < int (length (t ! nat r))" for r c
  proof
    assume "(r, c) \<in> set (allTds t)"
    then obtain i j where "i < length t" "j < length (t ! i)" "r = int i" "c = int j"
      unfolding mem by blast
    then show "0 \<le> r \<and> r < int (length t) \<and> 0 \<le> c \<and> c < int (length (t ! nat r))" by simp
  next
    assume a: "0 \<le> r \<and> r < int (length t) \<and> 0 \<le> c \<and> c < int (length (t ! nat r))"
    then have "nat r < length t \<and> nat c < length (t ! nat r) \<and> r = int (nat r) \<and> c = int (nat c)"
      by auto
    then show "(r, c) \<in> set (allTds t)" unfolding mem by blast
  qed
  then show ?thesis by auto
qed

lemma tableOK_D:
  assumes "tableOK d"
  shows "int (length (tds d)) = rows (stats d)"
    and "i < length (tds d) \<Longrightarrow> int (length (tds d ! i)) = cols (stats d)"
  using assms by (auto simp: tableOK_def list_all_length)

lemma set_allTds_tableOK:
  assumes "tableOK d"
  shows "set (allTds (tds d)) = {(r, c). inBounds d r c}"
proof -
  have "(0 \<le> r \<and> r < int (length (tds d)) \<and> 0 \<le> c \<and> c < int (length (tds d ! nat r))) = inBounds d r c"
    for r c
  proof (cases "0 \<le> r \<and> r < int (length (tds d))")
    case True
    then have "nat r < length (tds d)" by auto
    from tableOK_D(2) [OF assms this] True tableOK_D(1) [OF assms] show ?thesis
      by (auto simp: inBounds_def)
  next
    case False
    then show ?thesis using tableOK_D(1) [OF assms] by (auto simp: inBounds_def)
  qed
  then show ?thesis unfolding set_allTds by simp
qed

lemma length_changeClasses [simp]: "length (changeClasses f r c t) = length t"
  by (simp add: changeClasses_iff)

lemma length_changeClasses_row [simp]: "length (changeClasses f r c t ! i) = length (t ! i)"
proof (cases "tdExists t r c")
  case False
  then show ?thesis by (simp add: changeClasses_iff)
next
  case True
  with tdExists_D [OF True] show ?thesis
    by (cases "i = nat r") (simp_all add: changeClasses_iff)
qed

lemma tdExists_changeClasses [simp]: "tdExists (changeClasses f r c t) r' c' = tdExists t r' c'"
  by (simp add: tdExists_def)

lemma allTds_changeClasses [simp]: "allTds (changeClasses f r c t) = allTds t"
  by (simp add: allTds_def)

lemma nth_changeClasses:
  assumes "tdExists t r' c'"
  shows "changeClasses f r c t ! nat r' ! nat c' =
           (if (r', c') = (r, c) then f (t ! nat r ! nat c) else t ! nat r' ! nat c')"
proof (cases "tdExists t r c")
  case False
  with assms show ?thesis by (auto simp: changeClasses_iff)
next
  case ex: True
  note n = tdExists_D [OF ex] and n' = tdExists_D [OF assms]
  show ?thesis
  proof (cases "r' = r")
    case True
    show ?thesis
    proof (cases "c' = c")
      case True
      with \<open>r' = r\<close> ex n show ?thesis by (simp add: changeClasses_iff)
    next
      case False
      with n n' have "nat c' \<noteq> nat c" by auto
      with False \<open>r' = r\<close> ex n show ?thesis by (simp add: changeClasses_iff)
    qed
  next
    case False
    with n n' have "nat r' \<noteq> nat r" by auto
    with False ex show ?thesis by (simp add: changeClasses_iff)
  qed
qed

lemma hasClass_changeClasses:
  "hasClass (changeClasses f r c t) r' c' k =
     (if (r', c') = (r, c) then tdExists t r c \<and> k \<in> f (t ! nat r ! nat c)
      else hasClass t r' c' k)"
  by (cases "tdExists t r' c'") (auto simp: hasClass_iff nth_changeClasses)

lemma tableOK_tds:
  "length t = length (tds d) \<Longrightarrow> (\<And>i. length (t ! i) = length (tds d ! i)) \<Longrightarrow>
   tableOK (d\<lparr>tds := t\<rparr>) = tableOK d"
  by (simp add: tableOK_def list_all_length)

lemma wellFormed_changeClasses [simp]:
  "wellFormed (d\<lparr>tds := changeClasses f r c t\<rparr>) = wellFormed (d\<lparr>tds := t\<rparr>)"
  by (simp add: wellFormed_def tableOK_def list_all_length)

lemma wellFormed_reveal [simp]: "wellFormed (reveal S d) = wellFormed d"
proof -
  have "tableOK (reveal S d) = tableOK d"
    by (simp add: tableOK_def reveal_def list_all_length)
  then show ?thesis by (simp add: wellFormed_def)
qed

subsection \<open>The two loops of validate\<close>

lemma tdExists_tableOK: "tableOK d \<Longrightarrow> tdExists (tds d) r c = inBounds d r c"
  using set_allTds_tableOK [of d] set_allTds [of "tds d"]
  by (auto simp: tdExists_def)

lemma validateScan_result:
  assumes "gridOK d"
  shows "\<forall>p \<in> set ps. inBounds d (fst p) (snd p) \<Longrightarrow>
         validateScan d ps acc =
           Inr (if list_ex (\<lambda>p. hasClass (tds d) (fst p) (snd p) Flagged \<and> \<not> hasMine d (fst p) (snd p)) ps
                then ''You Lose!'' else fst acc,
                snd acc + length (filter (\<lambda>p. hasClass (tds d) (fst p) (snd p) Unknown \<and>
                                              hasMine d (fst p) (snd p)) ps))"
proof (induction ps arbitrary: acc)
  case Nil
  show ?case by simp
next
  case (Cons p ps)
  from Cons.prems have inb: "inBounds d (fst p) (snd p)" by simp
  have cell: "getCell d (fst p) (snd p) = Inr (Some (the (grid d) ! nat (fst p) ! nat (snd p)))"
    using inb by (simp add: getCell_gridOK [OF assms])
  have m: "mined (the (grid d) ! nat (fst p) ! nat (snd p)) = hasMine d (fst p) (snd p)"
    using inb by (simp add: hasMine_gridOK [OF assms])
  from Cons.prems have "\<forall>q \<in> set ps. inBounds d (fst q) (snd q)" by simp
  note IH = Cons.IH [OF this]
  show ?case
    by (simp add: cell bindE_def minedOf_def m IH)
qed

lemma markMissed_result:
  "wellFormed d \<Longrightarrow> \<forall>p \<in> set ps. inBounds d (fst p) (snd p) \<Longrightarrow>
   \<exists>d'. markMissed ps d = Inr d' \<and> wellFormed d' \<and> grid d' = grid d \<and> stats d' = stats d \<and>
        active d' = active d \<and> gameresult d' = gameresult d \<and> modal d' = modal d \<and>
        (\<forall>r c k. hasClass (tds d') r c k =
           (if (r, c) \<in> set ps \<and> hasMine d r c
            then (hasClass (tds d) r c k \<and> k \<noteq> Unknown) \<or> k \<in> {Sprite, Mined, Miss}
            else hasClass (tds d) r c k))"
proof (induction ps arbitrary: d)
  case Nil
  then show ?case by simp
next
  case (Cons p ps)
  let ?g = "\<lambda>k. (k - {Unknown}) \<union> {Sprite, Mined, Miss}"
  let ?d2 = "if hasMine d (fst p) (snd p)
             then d\<lparr>tds := changeClasses ?g (fst p) (snd p) (tds d)\<rparr> else d"
  from Cons.prems have ok: "gridOK d" and tab: "tableOK d" by (simp_all add: wellFormed_def)
  from Cons.prems have inb: "inBounds d (fst p) (snd p)" by simp
  then have ex: "tdExists (tds d) (fst p) (snd p)" using tab by (simp add: tdExists_tableOK)
  have cell: "getCell d (fst p) (snd p) = Inr (Some (the (grid d) ! nat (fst p) ! nat (snd p)))"
    using inb by (simp add: getCell_gridOK [OF ok])
  have m: "mined (the (grid d) ! nat (fst p) ! nat (snd p)) = hasMine d (fst p) (snd p)"
    using inb by (simp add: hasMine_gridOK [OF ok])
  have step: "markMissed (p # ps) d = markMissed ps ?d2"
    by (simp add: cell bindE_def minedOf_def m)
  have wf2: "wellFormed ?d2" using Cons.prems(1) by simp
  have same2: "grid ?d2 = grid d" "stats ?d2 = stats d" "active ?d2 = active d"
    "gameresult ?d2 = gameresult d" "modal ?d2 = modal d"
    by simp_all
  have hm2: "hasMine ?d2 r c = hasMine d r c" "inBounds ?d2 r c = inBounds d r c" for r c
    by simp_all
  have cls2: "hasClass (tds ?d2) r c k =
        (if (r, c) = p \<and> hasMine d r c then k \<in> ?g (tds d ! nat r ! nat c) else hasClass (tds d) r c k)"
    for r c k
    using ex by (cases p) (auto simp: hasClass_changeClasses)
  from Cons.prems(2) have "\<forall>q \<in> set ps. inBounds ?d2 (fst q) (snd q)" by (simp add: hm2)
  from Cons.IH [OF wf2 this] obtain d' where d': "markMissed ps ?d2 = Inr d'" "wellFormed d'"
    "grid d' = grid ?d2" "stats d' = stats ?d2" "active d' = active ?d2"
    "gameresult d' = gameresult ?d2" "modal d' = modal ?d2"
    "\<And>r c k. hasClass (tds d') r c k =
           (if (r, c) \<in> set ps \<and> hasMine ?d2 r c
            then (hasClass (tds ?d2) r c k \<and> k \<noteq> Unknown) \<or> k \<in> {Sprite, Mined, Miss}
            else hasClass (tds ?d2) r c k)"
    by blast
  have "hasClass (tds d') r c k =
           (if (r, c) \<in> set (p # ps) \<and> hasMine d r c
            then (hasClass (tds d) r c k \<and> k \<noteq> Unknown) \<or> k \<in> {Sprite, Mined, Miss}
            else hasClass (tds d) r c k)" for r c k
  proof (cases "(r, c) = p \<and> hasMine d r c")
    case True
    then have "tdExists (tds d) r c" using ex by auto
    then have "k \<in> ?g (tds d ! nat r ! nat c) = ((hasClass (tds d) r c k \<and> k \<noteq> Unknown) \<or> k \<in> {Sprite, Mined, Miss})"
      by (auto simp: hasClass_iff)
    with True show ?thesis
      unfolding d'(8) hm2 cls2 by auto
  next
    case False
    then show ?thesis unfolding d'(8) hm2 cls2 by auto
  qed
  with d'(1-7) step same2 show ?case by (intro exI [of _ d']) simp
qed

subsection \<open>The outcome\<close>

lemma unknownMined_scan:
  "length (filter (\<lambda>p. hasClass (tds d) (fst p) (snd p) Unknown \<and> hasMine d (fst p) (snd p))
      (allTds (tds d))) = unknownMined d"
  by (simp add: unknownMined_def unknownTds_def case_prod_unfold conj_commute)

lemma unknownTds_inBounds:
  "tableOK d \<Longrightarrow> p \<in> set (unknownTds (tds d)) \<Longrightarrow> inBounds d (fst p) (snd p)"
  using set_allTds_tableOK [of d] by (auto simp: unknownTds_def)

lemma in_unknownTds:
  "(r, c) \<in> set (unknownTds t) = hasClass t r c Unknown"
  using set_allTds [of t] by (auto simp: unknownTds_def hasClass_def)

lemma validate_inactive:
  "\<not> isGameActive d \<Longrightarrow>
   validate d = Inr (d\<lparr>modal := Some (''Error'',
          ''You must be actively playing a game in order to <strong>validate</strong>.'')\<rparr>)"
  by (simp add: validate_def)

lemma validate_active:
  assumes wf: "wellFormed d" and act: "isGameActive d"
  shows "\<exists>d'. validate d = Inr d' \<and> wellFormed d' \<and> stats d' = stats d \<and> grid d' = grid d \<and>
           \<not> active d' \<and> modal d' = modal d \<and>
           (if unknownMined d \<noteq> 0 \<and> unknownMined d \<noteq> length (unknownTds (tds d))
            then gameresult d' = Some ''You Lose!'' \<and>
                 (\<forall>r c k. hasClass (tds d') r c k =
                    (if hasClass (tds d) r c Unknown \<and> hasMine d r c
                     then (hasClass (tds d) r c k \<and> k \<noteq> Unknown) \<or> k \<in> {Sprite, Mined, Miss}
                     else hasClass (tds d) r c k))
            else gameresult d' = Some (if falseFlag d then ''You Lose!'' else ''You Win!'') \<and>
                 tds d' = tds d)"
proof -
  let ?d1 = "d\<lparr>active := False\<rparr>"
  from wf have ok: "gridOK d" and tab: "tableOK d" by (simp_all add: wellFormed_def)
  have ok1: "gridOK ?d1" using ok by (simp add: gridOK_def split: option.splits)
  have tab1: "tableOK ?d1" using tab by (simp add: tableOK_def)
  have wf1: "wellFormed ?d1" using ok1 tab1 by (simp add: wellFormed_def)
  have same: "hasMine ?d1 r c = hasMine d r c" "inBounds ?d1 r c = inBounds d r c" for r c
    by (simp_all add: hasMine_def getCell_def inBounds_def)
  have um: "unknownMined ?d1 = unknownMined d" by (simp add: unknownMined_def same)
  have ff: "falseFlag ?d1 = falseFlag d" by (simp add: falseFlag_def same)
  have "\<forall>p \<in> set (allTds (tds ?d1)). inBounds ?d1 (fst p) (snd p)"
    using set_allTds_tableOK [OF tab1] by auto
  from validateScan_result [OF ok1 this, of "(''You Win!'', 0)"]
  have scan: "validateScan ?d1 (allTds (tds ?d1)) (''You Win!'', 0) =
      Inr (if falseFlag d then ''You Lose!'' else ''You Win!'', unknownMined d)"
    unfolding unknownMined_scan um by (simp add: falseFlag_def same)
  show ?thesis
  proof (cases "unknownMined d \<noteq> 0 \<and> unknownMined d \<noteq> length (unknownTds (tds d))")
    case False
    then have "validate d =
        Inr (?d1\<lparr>gameresult := Some (if falseFlag d then ''You Lose!'' else ''You Win!'')\<rparr>)"
      using act scan by (auto simp: validate_def Let_def bindE_def)
    moreover have "wellFormed (?d1\<lparr>gameresult := Some (if falseFlag d then ''You Lose!'' else ''You Win!'')\<rparr>)"
      using wf by (simp add: wellFormed_def gridOK_def tableOK_def split: option.splits)
    ultimately show ?thesis using False by auto
  next
    case True
    have "\<forall>p \<in> set (unknownTds (tds ?d1)). inBounds ?d1 (fst p) (snd p)"
      using unknownTds_inBounds [OF tab1] by blast
    from markMissed_result [OF wf1 this] obtain d2 where d2:
      "markMissed (unknownTds (tds ?d1)) ?d1 = Inr d2" "wellFormed d2"
      "grid d2 = grid ?d1" "stats d2 = stats ?d1" "active d2 = active ?d1"
      "gameresult d2 = gameresult ?d1" "modal d2 = modal ?d1"
      "\<And>r c k. hasClass (tds d2) r c k =
           (if (r, c) \<in> set (unknownTds (tds ?d1)) \<and> hasMine ?d1 r c
            then (hasClass (tds ?d1) r c k \<and> k \<noteq> Unknown) \<or> k \<in> {Sprite, Mined, Miss}
            else hasClass (tds ?d1) r c k)"
      by blast
    let ?d' = "d2\<lparr>gameresult := Some ''You Lose!''\<rparr>"
    have "validate d = Inr ?d'"
      using act scan True d2(1) by (simp add: validate_def Let_def bindE_def)
    moreover have "wellFormed ?d'"
      using d2(2) by (simp add: wellFormed_def gridOK_def tableOK_def split: option.splits)
    moreover have "hasClass (tds ?d') r c k =
                    (if hasClass (tds d) r c Unknown \<and> hasMine d r c
                     then (hasClass (tds d) r c k \<and> k \<noteq> Unknown) \<or> k \<in> {Sprite, Mined, Miss}
                     else hasClass (tds d) r c k)" for r c k
      using d2(8) [of r c k] by (simp add: in_unknownTds same)
    ultimately show ?thesis using True d2(3-7) by auto
  qed
qed

lemma validate_total:
  assumes "wellFormed d"
  shows "\<exists>d'. validate d = Inr d' \<and> wellFormed d' \<and> stats d' = stats d \<and> grid d' = grid d"
proof (cases "isGameActive d")
  case True
  from validate_active [OF assms True] show ?thesis by blast
next
  case False
  moreover have "wellFormed (d\<lparr>modal := m\<rparr>)" for m
    using assms by (simp add: wellFormed_def gridOK_def tableOK_def split: option.splits)
  ultimately show ?thesis by (simp add: validate_inactive)
qed

text \<open>
  C2. In a well-formed game that is active and has no false flag: when the number of
  unknown cells with a mine is neither zero nor the number of unknown cells,
  \<open>validate\<close> declares a loss and every unknown cell that holds a mine is shown as a
  missed mine (it loses the class \<open>unknown\<close> and gets \<open>sprite\<close>, \<open>mined\<close> and \<open>miss\<close>);
  otherwise it declares a win.
\<close>

theorem validate_unknown_mines:
  assumes "wellFormed d" and "isGameActive d" and "\<not> falseFlag d"
  shows "\<exists>d'. validate d = Inr d' \<and>
           (if unknownMined d \<noteq> 0 \<and> unknownMined d \<noteq> length (unknownTds (tds d))
            then gameresult d' = Some ''You Lose!'' \<and>
                 (\<forall>r c. hasClass (tds d) r c Unknown \<and> hasMine d r c \<longrightarrow>
                    hasClass (tds d') r c Miss \<and> hasClass (tds d') r c Mined \<and>
                    hasClass (tds d') r c Sprite \<and> \<not> hasClass (tds d') r c Unknown)
            else gameresult d' = Some ''You Win!'')"
proof -
  from validate_active [OF assms(1,2)] obtain d' where d': "validate d = Inr d'"
    "if unknownMined d \<noteq> 0 \<and> unknownMined d \<noteq> length (unknownTds (tds d))
            then gameresult d' = Some ''You Lose!'' \<and>
                 (\<forall>r c k. hasClass (tds d') r c k =
                    (if hasClass (tds d) r c Unknown \<and> hasMine d r c
                     then (hasClass (tds d) r c k \<and> k \<noteq> Unknown) \<or> k \<in> {Sprite, Mined, Miss}
                     else hasClass (tds d) r c k))
            else gameresult d' = Some (if falseFlag d then ''You Lose!'' else ''You Win!'') \<and>
                 tds d' = tds d"
    by blast
  show ?thesis
  proof (cases "unknownMined d \<noteq> 0 \<and> unknownMined d \<noteq> length (unknownTds (tds d))")
    case True
    with d'(2) have res: "gameresult d' = Some ''You Lose!''"
      and cls: "\<And>r c k. hasClass (tds d') r c k =
                    (if hasClass (tds d) r c Unknown \<and> hasMine d r c
                     then (hasClass (tds d) r c k \<and> k \<noteq> Unknown) \<or> k \<in> {Sprite, Mined, Miss}
                     else hasClass (tds d) r c k)"
      by simp_all
    have "hasClass (tds d') r c Miss \<and> hasClass (tds d') r c Mined \<and>
          hasClass (tds d') r c Sprite \<and> \<not> hasClass (tds d') r c Unknown"
      if "hasClass (tds d) r c Unknown \<and> hasMine d r c" for r c
      using that by (simp add: cls)
    with d'(1) res True show ?thesis by auto
  next
    case False
    with d'(2) assms(3) have "gameresult d' = Some ''You Win!''" by simp
    with d'(1) False show ?thesis by auto
  qed
qed

theorem validate_unknown_mines_witness:
  "wellFormed openRow \<and> isGameActive openRow \<and> unknownMined openRow = 1 \<and>
   length (unknownTds (tds openRow)) = 3 \<and>
   (\<exists>d'. validate openRow = Inr d' \<and> gameresult d' = Some ''You Lose!'' \<and>
         hasClass (tds d') 0 2 Miss \<and> \<not> hasClass (tds d') 0 2 Unknown)"
proof -
  have h: "wellFormed openRow" "isGameActive openRow" "\<not> falseFlag openRow"
    by (simp_all add: openRow_def table_defs eval_defs upt_rec numeral_eq_Suc)
  have n: "unknownMined openRow = 1" "length (unknownTds (tds openRow)) = 3"
    by (simp_all add: openRow_def table_defs eval_defs upt_rec numeral_eq_Suc)
  have c: "hasClass (tds openRow) 0 2 Unknown \<and> hasMine openRow 0 2"
    by (simp add: openRow_def eval_defs)
  from validate_unknown_mines [OF h] n obtain d' where d': "validate openRow = Inr d'"
    "gameresult d' = Some ''You Lose!''"
    "\<forall>r c. hasClass (tds openRow) r c Unknown \<and> hasMine openRow r c \<longrightarrow>
                    hasClass (tds d') r c Miss \<and> hasClass (tds d') r c Mined \<and>
                    hasClass (tds d') r c Sprite \<and> \<not> hasClass (tds d') r c Unknown"
    by auto
  from d'(3) c have "hasClass (tds d') 0 2 Miss \<and> \<not> hasClass (tds d') 0 2 Unknown" by blast
  with h n d'(1,2) show ?thesis by blast
qed

subsection \<open>The click handler\<close>

lemma wellFormed_stats:
  "rows st = rows (stats d) \<Longrightarrow> cols st = cols (stats d) \<Longrightarrow>
   wellFormed (d\<lparr>stats := st\<rparr>) = wellFormed d"
  by (simp add: wellFormed_def gridOK_def tableOK_def split: option.splits)






lemma addNumber_rounds:
  "addNumber (2 ^ 53) 1 = 2 ^ 53"
  "addNumber (2 ^ 53 + 2) 1 = 2 ^ 53 + 4"
  "addNumber (2 ^ 60) 1 = 2 ^ 60"
  "addNumber (- (2 ^ 53) - 2) 1 = - (2 ^ 53)"
  by code_simp+




subsection \<open>A click on a mine\<close>

lemma falseFlag_iff: "falseFlag d = (\<exists>r c. hasClass (tds d) r c Flagged \<and> \<not> hasMine d r c)"
proof
  assume "falseFlag d"
  then obtain p where "hasClass (tds d) (fst p) (snd p) Flagged \<and> \<not> hasMine d (fst p) (snd p)"
    unfolding falseFlag_def list_ex_iff by blast
  then show "\<exists>r c. hasClass (tds d) r c Flagged \<and> \<not> hasMine d r c" by blast
next
  assume "\<exists>r c. hasClass (tds d) r c Flagged \<and> \<not> hasMine d r c"
  then obtain r c where rc: "hasClass (tds d) r c Flagged" "\<not> hasMine d r c" by blast
  from rc(1) have "(r, c) \<in> set (allTds (tds d))"
    unfolding set_allTds by (simp add: hasClass_def)
  with rc show "falseFlag d"
    unfolding falseFlag_def list_ex_iff by force
qed

lemma unknownMined_all:
  assumes "\<forall>r c. hasClass (tds d) r c Unknown \<longrightarrow> hasMine d r c"
  shows "unknownMined d = length (unknownTds (tds d))"
proof -
  have "filter (\<lambda>p. hasMine d (fst p) (snd p)) (unknownTds (tds d)) = unknownTds (tds d)"
    using assms by (auto simp: filter_id_conv in_unknownTds)
  then show ?thesis by (simp add: unknownMined_def)
qed

lemma cellClicked_mine:
  assumes "wellFormed d" and "hasMine d r c"
  shows "cellClicked False r c d =
           Some (validate (d\<lparr>stats := (stats d)\<lparr>clicks := addNumber (clicks (stats d)) 1\<rparr>,
                             tds := changeClasses (\<lambda>k. k \<union> {Mined, Sprite}) r c (tds d)\<rparr>))"
proof -
  let ?dm = "d\<lparr>stats := (stats d)\<lparr>clicks := addNumber (clicks (stats d)) 1\<rparr>,
              tds := changeClasses (\<lambda>k. k \<union> {Mined, Sprite}) r c (tds d)\<rparr>"
  from assms have ok: "gridOK d" and inb: "inBounds d r c"
    and m: "mined (the (grid d) ! nat r ! nat c)"
    by (simp_all add: wellFormed_def hasMine_gridOK)
  have "wellFormed (d\<lparr>stats := (stats d)\<lparr>clicks := addNumber (clicks (stats d)) 1\<rparr>\<rparr>)"
    using assms(1) by (simp add: wellFormed_stats)
  then have "wellFormed ?dm" by simp
  from validate_total [OF this] obtain d2 where "validate ?dm = Inr d2" by blast
  then show ?thesis
    using inb m by (simp add: cellClicked_def andThen_def Let_def getCell_gridOK [OF ok])
qed

lemma cellClicked_mine_win:
  assumes wf: "wellFormed d" and act: "isGameActive d" and m: "hasMine d r c"
    and flags: "\<forall>r c. hasClass (tds d) r c Flagged \<longrightarrow> hasMine d r c"
    and unknown: "\<forall>r c. hasClass (tds d) r c Unknown \<longrightarrow> hasMine d r c"
  shows "\<exists>d'. cellClicked False r c d = Some (Inr d') \<and> gameresult d' = Some ''You Win!''"
proof -
  let ?dm = "d\<lparr>stats := (stats d)\<lparr>clicks := addNumber (clicks (stats d)) 1\<rparr>,
              tds := changeClasses (\<lambda>k. k \<union> {Mined, Sprite}) r c (tds d)\<rparr>"
  have "wellFormed (d\<lparr>stats := (stats d)\<lparr>clicks := addNumber (clicks (stats d)) 1\<rparr>\<rparr>)"
    using wf by (simp add: wellFormed_stats)
  then have wfm: "wellFormed ?dm" by simp
  have actm: "isGameActive ?dm" using act by (simp add: isGameActive_def)
  have hm: "hasMine ?dm r' c' = hasMine d r' c'" for r' c'
    by (simp add: hasMine_def getCell_def)
  have cls: "hasClass (tds ?dm) r' c' k \<Longrightarrow> k = Flagged \<or> k = Unknown \<Longrightarrow> hasClass (tds d) r' c' k"
    for r' c' k
    by (auto simp: hasClass_changeClasses split: if_splits) (auto simp: hasClass_iff)
  have "\<not> falseFlag ?dm" unfolding falseFlag_iff hm using flags cls by blast
  moreover have "unknownMined ?dm = length (unknownTds (tds ?dm))"
    by (rule unknownMined_all) (use unknown cls hm in blast)
  ultimately have "\<exists>d'. validate ?dm = Inr d' \<and> gameresult d' = Some ''You Win!''"
    using validate_active [OF wfm actm] by auto
  then show ?thesis unfolding cellClicked_mine [OF wf m] by simp
qed

text \<open>
  When some cell with the class \<open>unknown\<close> has a mine and some other has none, a click
  without the shift key on a mined cell ends the game with the result \<open>You Lose!\<close>.
\<close>

lemma cellClicked_mine_loss:
  assumes wf: "wellFormed d" and act: "isGameActive d" and m: "hasMine d r c"
    and u1: "hasClass (tds d) r1 c1 Unknown" and m1: "hasMine d r1 c1"
    and u2: "hasClass (tds d) r2 c2 Unknown" and m2: "\<not> hasMine d r2 c2"
  shows "\<exists>d'. cellClicked False r c d = Some (Inr d') \<and> gameresult d' = Some ''You Lose!''"
proof -
  let ?dm = "d\<lparr>stats := (stats d)\<lparr>clicks := addNumber (clicks (stats d)) 1\<rparr>,
              tds := changeClasses (\<lambda>k. k \<union> {Mined, Sprite}) r c (tds d)\<rparr>"
  have "wellFormed (d\<lparr>stats := (stats d)\<lparr>clicks := addNumber (clicks (stats d)) 1\<rparr>\<rparr>)"
    using wf by (simp add: wellFormed_stats)
  then have wfm: "wellFormed ?dm" by simp
  have actm: "isGameActive ?dm" using act by (simp add: isGameActive_def)
  have hm: "hasMine ?dm r' c' = hasMine d r' c'" for r' c'
    by (simp add: hasMine_def getCell_def)
  have cls: "hasClass (tds d) r' c' Unknown \<Longrightarrow> hasClass (tds ?dm) r' c' Unknown" for r' c'
    by (auto simp: hasClass_changeClasses) (auto simp: hasClass_iff)
  have ne: "x \<in> set xs \<Longrightarrow> xs \<noteq> []" for x :: "int \<times> int" and xs by auto
  let ?P = "\<lambda>p. hasMine ?dm (fst p) (snd p)"
  have in1: "(r1, c1) \<in> set (unknownTds (tds ?dm))" and in2: "(r2, c2) \<in> set (unknownTds (tds ?dm))"
    unfolding in_unknownTds using u1 u2 cls by blast+
  from m1 have "?P (r1, c1)" using hm [of r1 c1] by simp
  with in1 have "(r1, c1) \<in> set (filter ?P (unknownTds (tds ?dm)))" by simp
  then have "filter ?P (unknownTds (tds ?dm)) \<noteq> []" by (rule ne)
  then have a: "unknownMined ?dm \<noteq> 0" by (simp add: unknownMined_def)
  from m2 have "\<not> ?P (r2, c2)" using hm [of r2 c2] by simp
  with in2 have "length (filter ?P (unknownTds (tds ?dm))) < length (unknownTds (tds ?dm))"
    by (rule length_filter_less)
  then have b: "unknownMined ?dm \<noteq> length (unknownTds (tds ?dm))" by (simp add: unknownMined_def)
  from a b have "\<exists>d'. validate ?dm = Inr d' \<and> gameresult d' = Some ''You Lose!''"
    using validate_active [OF wfm actm] by auto
  then show ?thesis unfolding cellClicked_mine [OF wf m] by simp
qed

lemma allMined_cells:
  "hasMine allMined r c = inBounds allMined r c"
  "hasClass (tds allMined) r c k = (inBounds allMined r c \<and> k = Unknown)"
  by (auto simp: hasMine_def getCell_def gridAt_def inBounds_def hasClass_def allMined_def)

text \<open>
  In the game \<open>allMined\<close> a click without the shift key on the mined cell in the corner
  ends the game with the result \<open>You Win!\<close>.
\<close>

theorem cellClicked_mine_declares_win:
  "hasMine allMined 0 0 \<and>
   (\<exists>d'. cellClicked False 0 0 allMined = Some (Inr d') \<and> gameresult d' = Some ''You Win!'')"
proof -
  have wf: "wellFormed allMined"
    by (simp add: wellFormed_def gridOK_def tableOK_def allMined_def list_all_iff)
  have act: "isGameActive allMined" by (simp add: isGameActive_def allMined_def)
  have m: "hasMine allMined 0 0" by (simp add: allMined_cells) (simp add: inBounds_def allMined_def)
  from cellClicked_mine_win [OF wf act m] m show ?thesis by (simp add: allMined_cells)
qed


subsection \<open>A new game with a mine in every cell\<close>

lemma unitValues_rowByRow: "unitValues rowByRow"
proof -
  have "of_nat (n mod 8) / (8::rat) < 1" for n :: nat
  proof -
    have "n mod 8 < 8" by simp
    then have "(of_nat (n mod 8) :: rat) < of_nat 8" by (simp only: of_nat_less_iff)
    then show ?thesis by simp
  qed
  then show ?thesis by (simp add: unitValues_def rowByRow_def)
qed

lemma pick_rowByRow:
  assumes "rows st = 8" and "cols st = 8"
  shows "pick rowByRow (0 + 2 * k) st = (int ((k div 8) mod 8), int (k mod 8))"
proof -
  have "(2 * k) div 16 = k div 8" by presburger
  moreover have "(2 * k + 1) div 2 = k" by presburger
  ultimately show ?thesis
    using assms by (simp add: pick_def rowByRow_def)
qed

lemma fair_rowByRow:
  assumes "rows st = 8" and "cols st = 8"
  shows "fair rowByRow 0 st"
proof (unfold fair_def, intro allI impI)
  fix r c :: int and n :: nat
  assume "0 \<le> r \<and> r < rows st \<and> 0 \<le> c \<and> c < cols st"
  with assms have b: "0 \<le> r" "r < 8" "0 \<le> c" "c < 8" by simp_all
  let ?k = "64 * n + 8 * nat r + nat c"
  have dm: "(64 * n + 8 * a + b) div 8 mod 8 = a \<and> (64 * n + 8 * a + b) mod 8 = b"
    if "a < 8" "b < 8" for a b :: nat
  proof -
    have e: "64 * n + 8 * a + b = b + (8 * n + a) * 8" by simp
    have "(64 * n + 8 * a + b) div 8 = 8 * n + a" unfolding e using that(2) by simp
    moreover have "(8 * n + a) mod 8 = a" using that(1) by simp
    moreover have "(64 * n + 8 * a + b) mod 8 = b"
      unfolding e mod_mult_self1 using that(2) by simp
    ultimately show ?thesis by simp
  qed
  from b have "nat r < 8" "nat c < 8" by simp_all
  from dm [OF this] have "(?k div 8) mod 8 = nat r" "?k mod 8 = nat c" by simp_all
  with b have "pick rowByRow (0 + 2 * ?k) st = (r, c)"
    unfolding pick_rowByRow [OF assms] by simp
  moreover have "?k \<ge> n" by simp
  ultimately show "\<exists>k\<ge>n. pick rowByRow (0 + 2 * k) st = (r, c)" by blast
qed

lemma all_mined:
  assumes "countMined d = nat (rows (stats d)) * nat (cols (stats d))" and "inBounds d r c"
  shows "hasMine d r c"
proof (rule ccontr)
  assume "\<not> hasMine d r c"
  moreover from assms(2) have "(r, c) \<in> set (allCells d)" by (simp add: set_allCells)
  ultimately have "length (filter (\<lambda>(r, c). hasMine d r c) (allCells d)) < length (allCells d)"
    by (intro length_filter_less [of "(r, c)"]) simp_all
  with assms(1) show False by (simp add: countMined_def length_allCells)
qed

lemma tds_buildGrid:
  "length (tds (buildGrid d)) = nat (rows (stats d))"
  "i < nat (rows (stats d)) \<Longrightarrow> length (tds (buildGrid d) ! i) = nat (cols (stats d))"
  "i < nat (rows (stats d)) \<Longrightarrow> j < nat (cols (stats d)) \<Longrightarrow> tds (buildGrid d) ! i ! j = {Unknown}"
  by (simp_all add: buildGrid_def)

lemma hasClass_buildGrid:
  "hasClass (tds (buildGrid d)) r c k = (inBounds d r c \<and> k = Unknown)"
proof (cases "0 \<le> r \<and> r < rows (stats d)")
  case False
  then have "\<not> (0 \<le> r \<and> r < int (length (tds (buildGrid d))))"
    unfolding tds_buildGrid(1) by arith
  with False show ?thesis by (auto simp: hasClass_def inBounds_def)
next
  case r: True
  then have nr: "nat r < nat (rows (stats d))" by arith
  show ?thesis
  proof (cases "0 \<le> c \<and> c < cols (stats d)")
    case False
    then have "\<not> (0 \<le> c \<and> c < int (length (tds (buildGrid d) ! nat r)))"
      unfolding tds_buildGrid(2) [OF nr] by arith
    with False show ?thesis by (auto simp: hasClass_def inBounds_def)
  next
    case True
    then have nc: "nat c < nat (cols (stats d))" by arith
    have "hasClass (tds (buildGrid d)) r c k = (k = Unknown)"
      using r True nr nc
      by (simp add: hasClass_def tds_buildGrid(1) tds_buildGrid(2) [OF nr] tds_buildGrid(3) [OF nr nc])
    with r True show ?thesis by (simp add: inBounds_def)
  qed
qed

lemma wellFormed_buildGrid:
  assumes "gridOK d" and "0 \<le> rows (stats d)" and "0 \<le> cols (stats d)"
  shows "wellFormed ((buildGrid d)\<lparr>active := True\<rparr>)"
  using assms
  by (simp add: wellFormed_def gridOK_def tableOK_def buildGrid_def list_all_iff split: option.splits)

text \<open>
  A new game on the board of 8 rows and 8 columns for which 64 mines are asked: \<open>init\<close>
  returns, and every cell is mined and unknown.
\<close>

lemma init_all_mined:
  assumes T: "ToNumber ''64'' = Finite 64" and u: "unitValues random"
    and f: "\<And>st. rows st = 8 \<Longrightarrow> cols st = 8 \<Longrightarrow> fair random 0 st"
  shows "\<exists>d'. init ToNumber random 1 ''64'' d = Some (Inr d') \<and> wellFormed d' \<and> isGameActive d' \<and>
           rows (stats d') = 8 \<and> cols (stats d') = 8 \<and>
           (\<forall>r c. inBounds d' r c \<longrightarrow> hasMine d' r c) \<and>
           (\<forall>r c k. hasClass (tds d') r c k = (inBounds d' r c \<and> k = Unknown))"
proof -
  let ?g = "generateGrid ToNumber 1 ''64'' (resetGame d)"
  have st: "stats ?g = \<lparr>clicks = 0, cols = 8, mines = JString ''64'', minesPlanted = 0, rows = 8,
               seconds = 0\<rparr>"
    using T by (simp add: generateGrid_def resetGame_def isNaN_def Let_def)
  have gr: "grid ?g = grid (freshGame 8 8 (JString ''64''))"
    using T by (simp add: generateGrid_def resetGame_def isNaN_def Let_def freshGame_def)
  have fr: "mineFree (freshGame 8 8 (JString ''64''))" by (rule mineFree_freshGame) simp_all
  have hm: "hasMine ?g r c = hasMine (freshGame 8 8 (JString ''64'')) r c" for r c
    by (rule hasMine_same) (simp_all add: gr st freshGame_def)
  have ok: "gridOK ?g"
    using fr by (simp add: mineFree_def gridOK_def gr st freshGame_def)
  have cm: "countMined ?g = 0"
    using fr by (simp add: mineFree_def countMined_def hm allCells_def st freshGame_def)
  have p: "planted ?g" using ok cm by (simp add: planted_def st)
  have "\<exists>d2. plantAllMines ToNumber random 0 ?g = Some (Inr d2) \<and> planted d2 \<and>
          stats d2 = (stats ?g)\<lparr>minesPlanted := 64\<rparr>"
    using plantAllMines_returns [OF u p, of ToNumber 64 64 0] T f [of "stats ?g"]
    by (auto simp: st)
  then obtain d2 where d2: "plantAllMines ToNumber random 0 ?g = Some (Inr d2)" "planted d2"
    "stats d2 = (stats ?g)\<lparr>minesPlanted := 64\<rparr>" by blast
  from d2(3) have st2: "rows (stats d2) = 8" "cols (stats d2) = 8" "minesPlanted (stats d2) = 64"
    by (simp_all add: st)
  from d2(2) have ok2: "gridOK d2" and c2: "countMined d2 = 64"
    by (simp_all add: planted_def st2)
  let ?d' = "(buildGrid d2)\<lparr>active := True\<rparr>"
  have ret: "init ToNumber random 1 ''64'' d = Some (Inr ?d')"
    by (simp add: init_def d2(1) andThen_def)
  have wf: "wellFormed ?d'" using ok2 by (rule wellFormed_buildGrid) (simp_all add: st2)
  have act: "isGameActive ?d'"
    using ok2 by (auto simp: isGameActive_def buildGrid_def gridOK_def split: option.splits)
  have same: "hasMine ?d' r c = hasMine d2 r c" "inBounds ?d' r c = inBounds d2 r c" for r c
    by (simp_all add: hasMine_def getCell_def inBounds_def buildGrid_def)
  have mined: "hasMine ?d' r c" if "inBounds ?d' r c" for r c
    unfolding same using that by (intro all_mined) (simp_all add: c2 st2 same)
  have cls: "hasClass (tds ?d') r c k = (inBounds ?d' r c \<and> k = Unknown)" for r c k
    unfolding same using hasClass_buildGrid [of d2 r c k] by simp
  have "rows (stats ?d') = 8" "cols (stats ?d') = 8" by (simp_all add: buildGrid_def st2)
  with ret wf act mined cls show ?thesis by blast
qed

text \<open>
  C1 fails: the player reveals a mined cell and the game is declared won.  A new game is
  started with the size 1 and the mine count 64, so that every cell of the 8 rows and
  8 columns gets a mine; the first click, without the shift key, on the cell in the
  corner reveals a mine, and \<open>validate\<close> ends the game with the result \<open>You Win!\<close>.
\<close>

theorem new_game_click_on_mine_wins:
  "\<exists>d' d''. init sixtyFour rowByRow 1 ''64'' blank = Some (Inr d') \<and> hasMine d' 0 0 \<and>
     cellClicked False 0 0 d' = Some (Inr d'') \<and> gameresult d'' = Some ''You Win!''"
proof -
  have T: "sixtyFour ''64'' = Finite 64" by (simp add: sixtyFour_def)
  have "\<exists>d'. init sixtyFour rowByRow 1 ''64'' blank = Some (Inr d') \<and> wellFormed d' \<and>
           isGameActive d' \<and> rows (stats d') = 8 \<and> cols (stats d') = 8 \<and>
           (\<forall>r c. inBounds d' r c \<longrightarrow> hasMine d' r c) \<and>
           (\<forall>r c k. hasClass (tds d') r c k = (inBounds d' r c \<and> k = Unknown))"
    using T unitValues_rowByRow by (rule init_all_mined) (rule fair_rowByRow)
  then obtain d' where d':
    "init sixtyFour rowByRow 1 ''64'' blank = Some (Inr d')" "wellFormed d'" "isGameActive d'"
    "rows (stats d') = 8" "cols (stats d') = 8"
    "\<forall>r c. inBounds d' r c \<longrightarrow> hasMine d' r c"
    "\<forall>r c k. hasClass (tds d') r c k = (inBounds d' r c \<and> k = Unknown)"
    by blast
  have "inBounds d' 0 0" using d'(4,5) by (simp add: inBounds_def)
  with d'(6) have m: "hasMine d' 0 0" by blast
  have "\<exists>d''. cellClicked False 0 0 d' = Some (Inr d'') \<and> gameresult d'' = Some ''You Win!''"
    using d'(2,3) m by (rule cellClicked_mine_win) (use d'(6,7) in auto)
  with d'(1) m show ?thesis by blast
qed

end
